theory Spec2Isabelle
  imports Complex_Main "HOL-Library.Multiset" "HOL-Library.Char_ord" "HOL-Library.List_Lexorder"
    "HOL-Library.Log_Nat"
begin

section \<open>The tree table\<close>

text \<open>
  An \<open>HTree\<close> object holds six numpy arrays of equal length, one per column of the data
  frame it was built from (\<open>child\<close>, \<open>parent\<close>, \<open>isleaf\<close>, \<open>x\<close>, \<open>y\<close>, \<open>col\<close>).
  The arrays are only ever read and written row-wise through boolean masks, so the object is
  modelled as the list of its rows. The columns \<open>x\<close> and \<open>y\<close> are named \<open>x_coord\<close> and
  \<open>y_coord\<close>; a float64 entry is the real number it denotes, and the one float64
  addition of the code is rounded (see \<open>add_tenth\<close>). The string columns have dtype
  \<open>object\<close>, so their entries are Python strings.
\<close>

record row =
  child :: string
  parent :: string
  isleaf :: bool
  x_coord :: real
  y_coord :: real
  col :: string

type_synonym HTree = "row list"

datatype py_error = ValueError | IndexError | AssertionError

text \<open>\<^verbatim>\<open>self.parent[self.child == n]\<close> and \<^verbatim>\<open>self.child[self.parent == n]\<close>.\<close>

definition parent_where_child :: "HTree \<Rightarrow> string \<Rightarrow> string list" where
  "parent_where_child t n = map parent (filter (\<lambda>r. child r = n) t)"

definition child_where_parent :: "HTree \<Rightarrow> string \<Rightarrow> string list" where
  "child_where_parent t n = map child (filter (\<lambda>r. parent r = n) t)"

section \<open>The worked example\<close>

text \<open>
  Root \<open>R\<close> at height 2 with children \<open>A\<close> and \<open>B\<close>; \<open>A\<close> at height 1 with the leaves
  \<open>a1\<close> and \<open>a2\<close>; \<open>B\<close> a leaf. \<open>R\<close> has a height, so it has a row, whose parent is the
  sentinel \<open>root\<close> the loader fills in. Rows are in the loader's order (by \<open>y\<close>, then \<open>x\<close>).
\<close>

definition mk_row :: "string \<Rightarrow> string \<Rightarrow> bool \<Rightarrow> real \<Rightarrow> real \<Rightarrow> row" where
  "mk_row c p l xv yv =
     \<lparr>child = c, parent = p, isleaf = l, x_coord = xv, y_coord = yv, col = ''#000000''\<rparr>"

definition example_tree :: HTree where
  "example_tree =
     [mk_row ''a1'' ''A'' True 0 0,
      mk_row ''a2'' ''A'' True 1 0,
      mk_row ''B'' ''R'' True 2 0,
      mk_row ''A'' ''R'' False (1/2) 1,
      mk_row ''R'' ''root'' False (5/4) 2]"

section \<open>HTree.get\_ancestors\<close>

text \<open>
  The loop of \<open>get_ancestors\<close>. Each round looks the parents of \<open>current_node\<close> up and
  extends \<open>ancestors\<close> by them. An empty lookup sets \<open>current_node\<close> to \<open>None\<close> and the loop
  ends. A lookup of two or more entries makes \<^verbatim>\<open>current_node == rootnode\<close> an array of
  several booleans, whose truth value raises \<open>ValueError\<close>. A lookup of one entry \<open>p\<close> ends
  the loop when \<open>p\<close> equals \<open>rootnode\<close> (after \<open>p\<close> has been appended) or when \<open>p\<close> is the
  empty string (the array is then falsy); otherwise the walk goes on from \<open>p\<close>.
  The walk need not end (a cyclic table): \<open>None\<close> is the run that never returns.
\<close>

partial_function (option) ancestors_loop ::
  "HTree \<Rightarrow> string option \<Rightarrow> string \<Rightarrow> string list \<Rightarrow> (py_error + string list) option"
where
  "ancestors_loop t rootnode current_node ancestors =
     (case parent_where_child t current_node of
        [] \<Rightarrow> Some (Inr ancestors)
      | [p] \<Rightarrow>
          if rootnode = Some p then Some (Inr (ancestors @ [p]))
          else if p = [] then Some (Inr (ancestors @ [p]))
          else ancestors_loop t rootnode p (ancestors @ [p])
      | p # q # ps \<Rightarrow> Some (Inl ValueError))"

declare ancestors_loop.simps [code]

definition get_ancestors ::
  "HTree \<Rightarrow> string \<Rightarrow> string option \<Rightarrow> (py_error + string list) option"
where
  "get_ancestors t node rootnode =
     (if node = [] then Some (Inr []) else ancestors_loop t rootnode node [])"

text \<open>A list of names in which every entry is the single parent of the one before it.\<close>

fun up_chain :: "HTree \<Rightarrow> string \<Rightarrow> string list \<Rightarrow> bool" where
  "up_chain t n [] = True"
| "up_chain t n (a # as) = (parent_where_child t n = [a] \<and> up_chain t a as)"

section \<open>HTree.get\_descendants\<close>

text \<open>
  The work list \<open>current_node\<close> is popped at the front; the children of the popped name
  are appended both to the work list and to \<open>descendants\<close>. There is no record of the
  names already seen and no error branch. \<open>None\<close> is the run that never returns.
\<close>

partial_function (option) descendants_loop ::
  "HTree \<Rightarrow> string list \<Rightarrow> string list \<Rightarrow> string list option"
where
  "descendants_loop t current_node descendants =
     (case current_node of
        [] \<Rightarrow> Some descendants
      | p # rest \<Rightarrow>
          descendants_loop t (rest @ child_where_parent t p)
            (descendants @ child_where_parent t p))"

declare descendants_loop.simps [code]

definition get_descendants :: "HTree \<Rightarrow> string \<Rightarrow> string list option" where
  "get_descendants t node =
     descendants_loop t (child_where_parent t node) (child_where_parent t node)"

text \<open>
  With \<open>leafonly=True\<close> the result is \<^verbatim>\<open>list(set(descendants) & set(self.child[self.isleaf]))\<close>,
  a list in the iteration order of a Python set; the model returns the set.
\<close>

definition get_descendants_leafonly :: "HTree \<Rightarrow> string \<Rightarrow> string set option" where
  "get_descendants_leafonly t node =
     map_option (\<lambda>ds. set ds \<inter> set (map child (filter isleaf t))) (get_descendants t node)"

text \<open>The edges of the table, from child to parent.\<close>

definition up_rel :: "HTree \<Rightarrow> (string \<times> string) set" where
  "up_rel t = (\<lambda>r. (child r, parent r)) ` set t"

text \<open>A table whose two rows point at each other.\<close>

definition cyclic_tree :: HTree where
  "cyclic_tree = [mk_row ''a'' ''b'' False 0 1, mk_row ''b'' ''a'' False 1 1]"

text \<open>A name that lies on a cycle of the edges, or above one.\<close>

definition above_cycle :: "HTree \<Rightarrow> string \<Rightarrow> bool" where
  "above_cycle t n \<longleftrightarrow> (\<exists>d. (d, n) \<in> (up_rel t)\<^sup>* \<and> (d, d) \<in> (up_rel t)\<^sup>+)"

text \<open>The edges whose parent end is not above a cycle.\<close>

definition sound_rel :: "HTree \<Rightarrow> (string \<times> string) set" where
  "sound_rel t = {e \<in> up_rel t. \<not> above_cycle t (snd e)}"

text \<open>The invariant of the work-list loop started at \<open>node\<close>.\<close>

definition bfs_inv :: "HTree \<Rightarrow> string \<Rightarrow> string list \<Rightarrow> string list \<Rightarrow> bool" where
  "bfs_inv t node cur acc \<longleftrightarrow>
     distinct acc \<and>
     (\<exists>popped. acc = popped @ cur \<and>
        (\<forall>c\<in>set acc. \<exists>q\<in>insert node (set popped). c \<in> set (child_where_parent t q))) \<and>
     (\<forall>c\<in>set acc. (c, node) \<in> (up_rel t)\<^sup>+)"

section \<open>HTree.get\_mergeseq\<close>

text \<open>A merge record is the two-element list \<open>[children, parent]\<close>.\<close>

type_synonym merge_record = "string list \<times> string"

text \<open>
  \<^verbatim>\<open>np.setdiff1d(ar1, ar2)\<close>: the sorted unique values of \<open>ar1\<close> that are not in \<open>ar2\<close>.
  Python strings are ordered lexicographically by code point, as lists of characters are
  here.
\<close>

definition setdiff1d :: "string list \<Rightarrow> string list \<Rightarrow> string list" where
  "setdiff1d ar1 ar2 = filter (\<lambda>a. a \<notin> set ar2) (sort (remdups ar1))"

text \<open>
  \<^verbatim>\<open>np.max(self.y) + 0.1\<close> is an addition of float64 numbers. A \<open>y\<close> entry is the real
  number its float64 value denotes; the sum is the exact sum of the two numbers, rounded
  to the nearest float64, a tie going to the even significand. The float64 number written
  \<open>0.1\<close> is \<open>3602879701896397 / 2^55\<close>. \<open>float64_exponent v\<close> is the exponent \<open>e\<close> with
  \<open>2^e \<le> |v| < 2^(e+1)\<close>, computed from the bit length of an integer; \<open>float64_round\<close>
  keeps 53 significant bits at every magnitude (no overflow to infinity, no subnormal
  numbers); NaN is not a value here.
\<close>

definition ties_even :: "real \<Rightarrow> int" where
  "ties_even z =
     (let f = \<lfloor>z\<rfloor>
      in if z - of_int f < 1 / 2 then f
         else if 1 / 2 < z - of_int f then f + 1
         else if even f then f else f + 1)"

definition float64_exponent :: "real \<Rightarrow> int" where
  "float64_exponent v =
     (if 1 \<le> \<bar>v\<bar> then bitlen \<lfloor>\<bar>v\<bar>\<rfloor> - 1
      else - bitlen (\<lceil>1 / \<bar>v\<bar>\<rceil> - 1))"

definition float64_round :: "real \<Rightarrow> real" where
  "float64_round v =
     (if v = 0 then 0
      else (let q = power_int 2 (float64_exponent v - 52)
            in of_int (ties_even (v / q)) * q))"

definition float64_tenth :: real where
  "float64_tenth = 3602879701896397 / 2 ^ 55"

definition add_tenth :: "real \<Rightarrow> real" where
  "add_tenth m = float64_round (m + float64_tenth)"

text \<open>
  The list \<open>y\<close> built by the first loop: a label that occurs in \<open>child\<close> contributes the
  \<open>y\<close> of every row with that child, any other label contributes \<^verbatim>\<open>np.max(self.y) + 0.1\<close>.
  The labels are parent entries, so the table is not empty where the maximum is taken.
\<close>

definition np_max :: "real list \<Rightarrow> real" where
  "np_max ys = Max (set ys)"

definition merge_heights :: "HTree \<Rightarrow> string list \<Rightarrow> real list" where
  "merge_heights t labels =
     concat (map (\<lambda>label.
       if label \<in> set (map child t) then map y_coord (filter (\<lambda>r. child r = label) t)
       else [add_tenth (np_max (map y_coord t))]) labels)"

text \<open>The \<open>while\<close> loop: pop the front and record its children until one label is left.\<close>

fun merge_loop :: "HTree \<Rightarrow> string list \<Rightarrow> merge_record list" where
  "merge_loop t (p # q # rest) = (child_where_parent t p, p) # merge_loop t (q # rest)"
| "merge_loop t [p] = []"
| "merge_loop t [] = []"

text \<open>
  \<^verbatim>\<open>np.argsort\<close> is numpy's; it is called with the default \<open>kind\<close> (quicksort), which is
  not a stable sort. It is a parameter of the model. What numpy promises of it is
  \<open>argsort_spec\<close>: the result is a permutation of the indices that puts the keys in
  ascending order. Indexing \<open>ordered_merge_parents\<close> with an index beyond its length (the
  list \<open>y\<close> is longer when a label has several rows) raises \<open>IndexError\<close>.
\<close>

definition argsort_spec :: "(real list \<Rightarrow> nat list) \<Rightarrow> bool" where
  "argsort_spec argsort \<longleftrightarrow>
     (\<forall>ks. mset (argsort ks) = mset [0..<length ks] \<and> sorted (map (\<lambda>i. ks ! i) (argsort ks)))"

definition get_mergeseq :: "(real list \<Rightarrow> nat list) \<Rightarrow> HTree \<Rightarrow> py_error + merge_record list" where
  "get_mergeseq argsort t =
     (let ordered_merge_parents = setdiff1d (map parent t) (map child (filter isleaf t));
          y = merge_heights t ordered_merge_parents;
          ind = argsort y
      in if \<forall>i\<in>set ind. i < length ordered_merge_parents
         then Inr (merge_loop t (map (\<lambda>i. ordered_merge_parents ! i) ind))
         else Inl IndexError)"

text \<open>
  A sort keeps ties on a list of keys when it returns the indices of equal keys in
  ascending order.
\<close>

definition argsort_keeps_ties :: "(real list \<Rightarrow> nat list) \<Rightarrow> real list \<Rightarrow> bool" where
  "argsort_keeps_ties argsort ks \<longleftrightarrow>
     (\<forall>k. filter (\<lambda>i. ks ! i = k) (argsort ks) = filter (\<lambda>i. ks ! i = k) [0..<length ks])"

text \<open>
  Two sorts that meet \<open>argsort_spec\<close>: insertion sort on the indices in ascending order,
  which keeps ties (numpy's default sort is an insertion sort on short arrays), and on the
  indices in descending order (equal keys come out reversed).
\<close>

definition argsort_stable :: "real list \<Rightarrow> nat list" where
  "argsort_stable ks = sort_key (\<lambda>i. ks ! i) [0..<length ks]"


text \<open>The merge height of a label, and the candidate labels of a table.\<close>

definition sentinel_height :: "HTree \<Rightarrow> real" where
  "sentinel_height t = add_tenth (np_max (map y_coord t))"

definition merge_height :: "HTree \<Rightarrow> string \<Rightarrow> real" where
  "merge_height t label =
     (case filter (\<lambda>r. child r = label) t of
        [] \<Rightarrow> sentinel_height t
      | r # _ \<Rightarrow> y_coord r)"

text \<open>The float64 sum \<^verbatim>\<open>np.max(self.y) + 0.1\<close> is greater than every \<open>y\<close> of the table.\<close>

definition sentinel_above :: "HTree \<Rightarrow> bool" where
  "sentinel_above t \<longleftrightarrow> (\<forall>r\<in>set t. y_coord r < sentinel_height t)"


definition merge_candidates :: "HTree \<Rightarrow> string list" where
  "merge_candidates t = setdiff1d (map parent t) (map child (filter isleaf t))"

text \<open>Heights grow strictly from every node that has children to its parent.\<close>

definition heights_increase :: "HTree \<Rightarrow> bool" where
  "heights_increase t \<longleftrightarrow>
     (\<forall>r\<in>set t. \<forall>r'\<in>set t.
        parent r' = child r \<and> child r' \<in> set (map parent t) \<longrightarrow> y_coord r' < y_coord r)"

text \<open>
  A table that meets the invariants of the data model, in which the inner node \<open>P\<close> is
  higher than its parent \<open>Q\<close>.
\<close>

definition inverted_tree :: HTree where
  "inverted_tree =
     [mk_row ''a'' ''P'' True 0 0,
      mk_row ''b'' ''P'' True 1 0,
      mk_row ''c'' ''Q'' True 2 0,
      mk_row ''Q'' ''root'' False (5/4) 1,
      mk_row ''P'' ''Q'' False (1/2) 2]"


definition huge_forest :: HTree where
  "huge_forest =
     [mk_row ''a'' ''z1'' True 0 0,
      mk_row ''b'' ''z2'' True 1 0,
      mk_row ''z1'' ''root'' False 0 (10 ^ 17),
      mk_row ''z2'' ''root'' False 1 (10 ^ 17)]"

definition long_name_tree :: HTree where
  "long_name_tree =
     [mk_row ''P'' ''X'' True 0 0,
      mk_row ''a'' ''PQ'' True 1 0,
      mk_row ''b'' ''PQ'' True 2 0,
      mk_row ''X'' ''R'' False 0 1,
      mk_row ''PQ'' ''R'' False (3/2) 2,
      mk_row ''R'' ''root'' False (3/4) 3]"


section \<open>do\_merges\<close>

text \<open>
  The \<open>labels\<close> argument is any Python sequence; only a numpy array passes the assertion.
  A numpy array of strings has the dtype \<open>object\<close>, whose entries are Python strings, or a
  fixed-width dtype \<open><Uk\<close>, whose entries hold \<open>k\<close> characters at most: a longer string is
  cut to its first \<open>k\<close> characters when it is assigned. A merge record is the two-element
  list \<open>[children, parent]\<close>. The array is updated in place, so the function returns its
  result together with the contents of the argument object after the call. The \<open>verbose\<close>
  flag only prints.
\<close>

datatype np_dtype = ObjectDtype | UnicodeDtype nat

datatype py_seq = Ndarray np_dtype "string list" | PyList "string list" | PyTuple "string list"

fun stored :: "np_dtype \<Rightarrow> string \<Rightarrow> string" where
  "stored ObjectDtype s = s"
| "stored (UnicodeDtype k) s = take k s"

text \<open>\<^verbatim>\<open>labels[labels == c_node] = p_node\<close>\<close>

definition relabel :: "np_dtype \<Rightarrow> string \<Rightarrow> string \<Rightarrow> string list \<Rightarrow> string list" where
  "relabel dt c_node p_node labels = map (\<lambda>l. if l = c_node then stored dt p_node else l) labels"

definition merge_one :: "np_dtype \<Rightarrow> merge_record \<Rightarrow> string list \<Rightarrow> string list" where
  "merge_one dt change labels =
     fold (\<lambda>c_node ls. relabel dt c_node (snd change) ls) (fst change) labels"

function merges_loop ::
  "np_dtype \<Rightarrow> nat \<Rightarrow> nat \<Rightarrow> merge_record list \<Rightarrow> string list \<Rightarrow> string list" where
  "merges_loop dt i n_merges list_changes labels =
     (if i < n_merges then
        (if i < length list_changes
         then merges_loop dt (i + 1) n_merges list_changes
                (merge_one dt (list_changes ! i) labels)
         else labels)
      else labels)"
  by pat_completeness auto
termination
  by (relation "measure (\<lambda>(dt, i, n_merges, list_changes, labels). n_merges - i)") auto

declare merges_loop.simps [simp del]

fun isinstance_ndarray :: "py_seq \<Rightarrow> bool" where
  "isinstance_ndarray (Ndarray dt ls) = True"
| "isinstance_ndarray _ = False"

fun entries :: "py_seq \<Rightarrow> string list" where
  "entries (Ndarray dt ls) = ls"
| "entries (PyList ls) = ls"
| "entries (PyTuple ls) = ls"

fun dtype_of :: "py_seq \<Rightarrow> np_dtype" where
  "dtype_of (Ndarray dt ls) = dt"
| "dtype_of _ = ObjectDtype"

definition do_merges ::
  "py_seq \<Rightarrow> merge_record list \<Rightarrow> int \<Rightarrow> (py_error + string list) \<times> py_seq"
where
  "do_merges labels list_changes n_merges =
     (if \<not> isinstance_ndarray labels then (Inl AssertionError, labels)
      else
        (let ls' = merges_loop (dtype_of labels) 0 (nat n_merges) list_changes (entries labels)
         in (Inr ls', Ndarray (dtype_of labels) ls')))"

text \<open>No parent label of the merge records is cut when it is stored in an array of the dtype.\<close>

definition holds_parents :: "np_dtype \<Rightarrow> merge_record list \<Rightarrow> bool" where
  "holds_parents dt seq \<longleftrightarrow> (\<forall>r\<in>set seq. stored dt (snd r) = snd r)"

text \<open>
  A merge sequence in which no record's parent, nor the parent of any later record, is
  among the record's children.
\<close>

fun ordered_records :: "merge_record list \<Rightarrow> bool" where
  "ordered_records [] = True"
| "ordered_records (r # rs) =
     (snd r \<notin> set (fst r) \<and> (\<forall>r'\<in>set rs. snd r' \<notin> set (fst r)) \<and> ordered_records rs)"

section \<open>calculate\_cophenetic\_distance\<close>

text \<open>
  The inner \<open>while\<close> loop. \<open>ancestors_i\<close> arrives reversed and \<open>pop()\<close> takes its last
  entry, so the scan runs from the leaf upwards. On the first entry that occurs in
  \<open>ancestors_j\<close> the loop ends with the \<open>y\<close> of the first row whose child is that entry;
  \<^verbatim>\<open>.iloc[0]\<close> raises \<open>IndexError\<close> when there is no such row. \<open>Inr None\<close>: no entry
  is common, nothing is written.
\<close>

function pop_scan :: "HTree \<Rightarrow> string list \<Rightarrow> string list \<Rightarrow> py_error + real option" where
  "pop_scan t ancestors_i ancestors_j =
     (if ancestors_i = [] then Inr None
      else
        (let this_node = last ancestors_i; rest = butlast ancestors_i
         in if this_node \<in> set ancestors_j then
              (case filter (\<lambda>r. child r = this_node) t of
                 [] \<Rightarrow> Inl IndexError
               | r # _ \<Rightarrow> Inr (Some (y_coord r)))
            else pop_scan t rest ancestors_j))"
  by pat_completeness auto
termination
  by (relation "measure (\<lambda>(t, ancestors_i, ancestors_j). length ancestors_i)") auto

declare pop_scan.simps [simp del]

text \<open>
  The body of the two \<open>for\<close> loops for one pair of leaves: both ancestor lists, each with
  its leaf put in front, then the scan. \<open>None\<close> is a walk that does not return.
\<close>

definition common_height :: "HTree \<Rightarrow> string \<Rightarrow> string \<Rightarrow> (py_error + real option) option" where
  "common_height t li lj =
     (case get_ancestors t li None of
        None \<Rightarrow> None
      | Some (Inl e) \<Rightarrow> Some (Inl e)
      | Some (Inr ancestors_i) \<Rightarrow>
          (case get_ancestors t lj None of
             None \<Rightarrow> None
           | Some (Inl e) \<Rightarrow> Some (Inl e)
           | Some (Inr ancestors_j) \<Rightarrow>
               Some (pop_scan t (rev (li # ancestors_i)) (lj # ancestors_j))))"

text \<open>
  The data frame \<open>df_distance\<close>, as a map from (row label, column label) to the entry.
  \<^verbatim>\<open>df_distance.loc[lj, li] = v\<close> writes the entry of row \<open>lj\<close> and column \<open>li\<close>.
\<close>

type_synonym frame = "string \<times> string \<Rightarrow> real option"

fun cophenetic_loop ::
  "HTree \<Rightarrow> (string \<times> string) list \<Rightarrow> frame \<Rightarrow> (py_error + frame) option"
where
  "cophenetic_loop t [] df_distance = Some (Inr df_distance)"
| "cophenetic_loop t ((li, lj) # pairs) df_distance =
     (case common_height t li lj of
        None \<Rightarrow> None
      | Some (Inl e) \<Rightarrow> Some (Inl e)
      | Some (Inr None) \<Rightarrow> cophenetic_loop t pairs df_distance
      | Some (Inr (Some v)) \<Rightarrow> cophenetic_loop t pairs (df_distance((lj, li) \<mapsto> v)))"

definition calculate_cophenetic_distance :: "HTree \<Rightarrow> (py_error + frame) option" where
  "calculate_cophenetic_distance subtree =
     (let leaf_list = map child (filter isleaf subtree);
          zeros = (\<lambda>(a, b). if a \<in> set leaf_list \<and> b \<in> set leaf_list then Some 0 else None)
      in cophenetic_loop subtree (List.product leaf_list leaf_list) zeros)"

text \<open>
  The lowest common ancestor, from the edges alone: \<open>c\<close> lies on or above both nodes and
  every node that does so lies on or above \<open>c\<close>. The height of a node is the \<open>y\<close> of its
  row.
\<close>

definition is_lca :: "HTree \<Rightarrow> string \<Rightarrow> string \<Rightarrow> string \<Rightarrow> bool" where
  "is_lca t a b c \<longleftrightarrow>
     (a, c) \<in> (up_rel t)\<^sup>* \<and> (b, c) \<in> (up_rel t)\<^sup>* \<and>
     (\<forall>d. (a, d) \<in> (up_rel t)\<^sup>* \<and> (b, d) \<in> (up_rel t)\<^sup>* \<longrightarrow> (c, d) \<in> (up_rel t)\<^sup>*)"

definition node_height :: "HTree \<Rightarrow> string \<Rightarrow> real option" where
  "node_height t c = (case filter (\<lambda>r. child r = c) t of [] \<Rightarrow> None | r # _ \<Rightarrow> Some (y_coord r))"

text \<open>
  A valid dendrogram: one row per node, no empty node name, no cycle, one row at most
  whose parent is no node (the row of the root, with the sentinel as parent), and leaves at
  height 0.
\<close>

definition valid_dendrogram :: "HTree \<Rightarrow> bool" where
  "valid_dendrogram t \<longleftrightarrow>
     distinct (map child t) \<and> (\<forall>r\<in>set t. child r \<noteq> []) \<and> acyclic (up_rel t) \<and>
     length (filter (\<lambda>r. parent r \<notin> set (map child t)) t) \<le> 1 \<and>
     (\<forall>r\<in>set t. isleaf r \<longrightarrow> y_coord r = 0)"

section \<open>simplify\_tree\<close>

text \<open>
  \<open>simplify_tree\<close> copies its argument, updates arrays of the copy in place and rebinds
  \<open>simple_tree\<close> to newly built objects, so it is modelled over a store of \<open>HTree\<close>
  objects: the store is the list of the objects allocated so far and a reference is an
  index into it. Every call receives a reference to an allocated object.
\<close>

type_synonym store = "HTree list"

text \<open>\<^verbatim>\<open>np.unique\<close>: the sorted distinct values.\<close>

definition np_unique :: "string list \<Rightarrow> string list" where
  "np_unique xs = sort (remdups xs)"

text \<open>
  \<^verbatim>\<open>simple_tree.parent[simple_tree.parent == node] = node_parent\<close>. A single value is
  broadcast; as many values as there are selected rows are assigned one by one; any other
  number of values raises \<open>ValueError\<close>.
\<close>

fun assign_each :: "string \<Rightarrow> string list \<Rightarrow> HTree \<Rightarrow> HTree" where
  "assign_each node vs [] = []"
| "assign_each node vs (r # rs) =
     (if parent r = node then
        (case vs of
           v # vs' \<Rightarrow> r\<lparr>parent := v\<rparr> # assign_each node vs' rs
         | [] \<Rightarrow> r # assign_each node [] rs)
      else r # assign_each node vs rs)"

definition set_parent_where :: "HTree \<Rightarrow> string \<Rightarrow> string list \<Rightarrow> py_error + HTree" where
  "set_parent_where st node vals =
     (if length vals = 1
      then Inr (map (\<lambda>r. if parent r = node then r\<lparr>parent := hd vals\<rparr> else r) st)
      else if length vals = length (filter (\<lambda>r. parent r = node) st)
      then Inr (assign_each node vals st)
      else Inl ValueError)"

text \<open>The rows that stay after \<^verbatim>\<open>drop\<close>: neither child nor parent is \<open>node\<close>.\<close>

definition drop_node :: "HTree \<Rightarrow> string \<Rightarrow> HTree" where
  "drop_node st node = filter (\<lambda>r. \<not> (child r = node \<or> parent r = node)) st"

text \<open>
  One round of the loop on the table \<open>st\<close> of the current object. \<open>Inr None\<close>: the node
  has no parent row and nothing happens. \<open>Inr (Some (st', df))\<close>: \<open>st'\<close> is the current
  object after the assignment to its \<open>parent\<close> array, \<open>df\<close> the table of the object built
  from the data frame after the drop.
\<close>

definition simplify_step :: "HTree \<Rightarrow> string \<Rightarrow> py_error + (HTree \<times> HTree) option" where
  "simplify_step st node =
     (let node_parent = np_unique (parent_where_child st node)
      in if node_parent \<noteq> [] then
           (case set_parent_where st node node_parent of
              Inl e \<Rightarrow> Inl e
            | Inr st' \<Rightarrow> Inr (Some (st', drop_node st' node)))
         else Inr None)"

fun simplify_loop :: "store \<Rightarrow> nat \<Rightarrow> string list \<Rightarrow> (py_error + nat) \<times> store" where
  "simplify_loop h simple_tree [] = (Inr simple_tree, h)"
| "simplify_loop h simple_tree (node # rest) =
     (case simplify_step (h ! simple_tree) node of
        Inl e \<Rightarrow> (Inl e, h)
      | Inr None \<Rightarrow> simplify_loop h simple_tree rest
      | Inr (Some (st', df)) \<Rightarrow> simplify_loop (h[simple_tree := st'] @ [df]) (length h) rest)"

text \<open>
  The default \<open>skip_nodes\<close>: the index of \<^verbatim>\<open>value_counts()\<close> of the parent column, cut
  down to the labels counted once. The index holds each distinct value once, by falling
  count; the order among equal counts is pandas'. The index order is a parameter
  \<open>vc_index\<close> of the model, with the contract \<open>vc_index_spec\<close>. (The column of counts is
  read as \<^verbatim>\<open>X[0]\<close>, its name before pandas 2.)
\<close>

definition vc_index_spec :: "(string list \<Rightarrow> string list) \<Rightarrow> bool" where
  "vc_index_spec vc_index \<longleftrightarrow> (\<forall>ps. set (vc_index ps) = set ps \<and> distinct (vc_index ps))"

definition default_skip_nodes :: "(string list \<Rightarrow> string list) \<Rightarrow> HTree \<Rightarrow> string list" where
  "default_skip_nodes vc_index t =
     filter (\<lambda>p. count_list (map parent t) p = 1) (vc_index (map parent t))"

definition simplify_tree ::
  "(string list \<Rightarrow> string list) \<Rightarrow> store \<Rightarrow> nat \<Rightarrow> string list option
     \<Rightarrow> (py_error + nat \<times> string list) \<times> store"
where
  "simplify_tree vc_index h pruned_subtree skip_nodes =
     (let h0 = h @ [h ! pruned_subtree];
          simple_tree = length h;
          sk = (case skip_nodes of
                  None \<Rightarrow> default_skip_nodes vc_index (h ! pruned_subtree)
                | Some s \<Rightarrow> s)
      in case simplify_loop h0 simple_tree sk of
           (Inl e, h') \<Rightarrow> (Inl e, h')
         | (Inr a, h') \<Rightarrow> (Inr (a, sk), h'))"

text \<open>An index order that meets \<open>vc_index_spec\<close>: first appearance, then falling count.\<close>

definition vc_index_first :: "string list \<Rightarrow> string list" where
  "vc_index_first ps = sort_key (\<lambda>p. - int (count_list ps p)) (rev (remdups (rev ps)))"

text \<open>The table the loop leaves in the current object, without the store.\<close>

fun simplified_rows :: "HTree \<Rightarrow> string list \<Rightarrow> py_error + HTree" where
  "simplified_rows st [] = Inr st"
| "simplified_rows st (node # rest) =
     (case simplify_step st node of
        Inl e \<Rightarrow> Inl e
      | Inr None \<Rightarrow> simplified_rows st rest
      | Inr (Some (st', df)) \<Rightarrow> simplified_rows df rest)"

text \<open>The row of a removed node's child after rewiring.\<close>

definition rewire :: "string \<Rightarrow> string \<Rightarrow> row \<Rightarrow> row" where
  "rewire N q x = (if parent x = N then x\<lparr>parent := q\<rparr> else x)"

text \<open>The table after the removal of the node of row \<open>r\<close>.\<close>

definition without :: "HTree \<Rightarrow> row \<Rightarrow> HTree" where
  "without st r = map (rewire (child r) (parent r)) (filter (\<lambda>x. child x \<noteq> child r) st)"

text \<open>Rows flagged as leaves are the parent of no row.\<close>

definition leaf_flags_ok :: "HTree \<Rightarrow> bool" where
  "leaf_flags_ok t \<longleftrightarrow> (\<forall>r\<in>set t. isleaf r \<longrightarrow> child r \<notin> set (map parent t))"

text \<open>A table with the pass-through node \<open>P\<close> between the leaf \<open>a\<close> and \<open>R\<close>.\<close>

definition passthrough_tree :: HTree where
  "passthrough_tree =
     [mk_row ''a'' ''P'' True 0 0,
      mk_row ''b'' ''R'' True 1 0,
      mk_row ''P'' ''R'' False 0 1,
      mk_row ''R'' ''root'' False (1/2) 2]"

section \<open>calculate\_wasserstein\_distance\<close>

text \<open>
  Vectors are lists of reals (float64 idealised), matrices lists of rows. The solver
  \<^verbatim>\<open>scipy.optimize.linprog\<close> is not code of this program: it is a parameter \<open>linprog\<close> of
  the model, called with the cost vector, the equality constraints and the bounds, and
  returning \<open>success\<close>, \<open>x\<close> and \<open>fun\<close>. What is asked of it is \<open>linprog_spec\<close>: a result
  with \<open>success\<close> is a feasible point, \<open>fun\<close> is its cost, and no feasible point is
  cheaper.
\<close>

datatype lp_result = LpResult (lp_success: bool) (lp_x: "real list") (lp_fun: real)

type_synonym lp_bounds = "(real \<times> real option) list"

definition dot :: "real list \<Rightarrow> real list \<Rightarrow> real" where
  "dot u v = sum_list (map2 (*) u v)"

definition in_bounds :: "real \<times> real option \<Rightarrow> real \<Rightarrow> bool" where
  "in_bounds b v \<longleftrightarrow> fst b \<le> v \<and> (case snd b of None \<Rightarrow> True | Some u \<Rightarrow> v \<le> u)"

definition lp_feasible :: "real list \<Rightarrow> real list list \<Rightarrow> real list \<Rightarrow> lp_bounds \<Rightarrow> real list \<Rightarrow> bool" where
  "lp_feasible c A_eq b_eq bounds z \<longleftrightarrow>
     length z = length c \<and> map (\<lambda>row. dot row z) A_eq = b_eq \<and>
     list_all2 in_bounds bounds z"

definition linprog_spec ::
  "(real list \<Rightarrow> real list list \<Rightarrow> real list \<Rightarrow> lp_bounds \<Rightarrow> lp_result) \<Rightarrow> bool" where
  "linprog_spec linprog \<longleftrightarrow>
     (\<forall>c A_eq b_eq bounds.
        lp_success (linprog c A_eq b_eq bounds) \<longrightarrow>
          lp_feasible c A_eq b_eq bounds (lp_x (linprog c A_eq b_eq bounds)) \<and>
          lp_fun (linprog c A_eq b_eq bounds) = dot c (lp_x (linprog c A_eq b_eq bounds)) \<and>
          (\<forall>z. lp_feasible c A_eq b_eq bounds z \<longrightarrow>
             dot c (lp_x (linprog c A_eq b_eq bounds)) \<le> dot c z))"

text \<open>
  \<^verbatim>\<open>np.zeros((n, n))\<close> with row \<open>i\<close> (or column \<open>j\<close>) set to 1, flattened row by row, and
  \<^verbatim>\<open>x.reshape((n, n))\<close>, which cuts \<open>x\<close> into \<open>n\<close> rows of \<open>n\<close> entries.
\<close>

definition row_constraint :: "nat \<Rightarrow> nat \<Rightarrow> real list" where
  "row_constraint n i = concat (map (\<lambda>r. map (\<lambda>c. if r = i then 1 else 0) [0..<n]) [0..<n])"

definition col_constraint :: "nat \<Rightarrow> nat \<Rightarrow> real list" where
  "col_constraint n j = concat (map (\<lambda>r. map (\<lambda>c. if c = j then 1 else 0) [0..<n]) [0..<n])"

fun reshape :: "nat \<Rightarrow> nat \<Rightarrow> real list \<Rightarrow> real list list" where
  "reshape 0 n xs = []"
| "reshape (Suc m) n xs = take n xs # reshape m n (drop n xs)"

text \<open>
  \<open>Q[j]\<close> raises \<open>IndexError\<close> when \<open>Q\<close> is shorter than \<open>P\<close>; a cost vector whose length
  is not the number of columns of \<open>A_eq\<close> is rejected by \<open>linprog\<close> with \<open>ValueError\<close>.
  A failed solve returns \<open>(None, None)\<close>.
\<close>

definition calculate_wasserstein_distance ::
  "(real list \<Rightarrow> real list list \<Rightarrow> real list \<Rightarrow> lp_bounds \<Rightarrow> lp_result)
     \<Rightarrow> real list \<Rightarrow> real list \<Rightarrow> real list list
     \<Rightarrow> py_error + (real list list \<times> real) option"
where
  "calculate_wasserstein_distance linprog P Q D =
     (let n = length P;
          cost_vector = concat D
      in if length Q < n then Inl IndexError
         else
           (let A_eq = map (row_constraint n) [0..<n] @ map (col_constraint n) [0..<n];
                b_eq = P @ take n Q;
                bounds = replicate (n * n) (0, None)
            in if length cost_vector \<noteq> n * n then Inl ValueError
               else
                 (let result = linprog cost_vector A_eq b_eq bounds
                  in if lp_success result
                     then Inr (Some (reshape n n (lp_x result), lp_fun result))
                     else Inr None)))"

text \<open>
  A transport plan for \<open>P\<close> and \<open>Q\<close>: an \<open>n\<close> by \<open>n\<close> matrix without negative entries whose
  rows sum to \<open>P\<close> and whose columns sum to \<open>Q\<close>; and the cost of a plan.
\<close>

definition transport_plan :: "real list \<Rightarrow> real list \<Rightarrow> real list list \<Rightarrow> bool" where
  "transport_plan P Q T \<longleftrightarrow>
     length T = length P \<and> (\<forall>row\<in>set T. length row = length P) \<and>
     (\<forall>row\<in>set T. \<forall>v\<in>set row. 0 \<le> v) \<and>
     map sum_list T = P \<and>
     map (\<lambda>j. sum_list (map (\<lambda>row. row ! j) T)) [0..<length P] = Q"

definition transport_cost :: "real list list \<Rightarrow> real list list \<Rightarrow> real" where
  "transport_cost D T = sum_list (map2 dot D T)"

text \<open>The plan that leaves every mass where it is.\<close>

definition stay_plan :: "real list \<Rightarrow> real list list" where
  "stay_plan P = map (\<lambda>i. map (\<lambda>j. if j = i then P ! i else 0) [0..<length P]) [0..<length P]"

text \<open>
  A solver that knows one program, the transport of \<open>(1/2, 1/2)\<close> onto itself at cost 1
  off the diagonal, and fails on every other.
\<close>

definition linprog_demo ::
  "real list \<Rightarrow> real list list \<Rightarrow> real list \<Rightarrow> lp_bounds \<Rightarrow> lp_result" where
  "linprog_demo c A_eq b_eq bounds =
     (if c = [0, 1, 1, 0] \<and> A_eq = [[1, 1, 0, 0], [0, 0, 1, 1], [1, 0, 1, 0], [0, 1, 0, 1]] \<and>
         b_eq = [1/2, 1/2, 1/2, 1/2] \<and> bounds = replicate 4 (0, None)
      then LpResult True [1/2, 0, 0, 1/2] 0
      else LpResult False [] 0)"

section \<open>Facts about get\_ancestors\<close>

lemma ancestors_loop_absent:
  "n \<notin> set (map child t) \<Longrightarrow> ancestors_loop t rootnode n acc = Some (Inr acc)"
proof -
  assume "n \<notin> set (map child t)"
  then have "filter (\<lambda>r. child r = n) t = []"
    by (auto simp: filter_empty_conv)
  then show ?thesis
    by (subst ancestors_loop.simps) (simp add: parent_where_child_def)
qed

text \<open>
  Claim C8, as the code has it: for a node that is no \<open>child\<close> entry of the table,
  \<open>get_ancestors\<close> returns the empty list; no error is raised.
\<close>

theorem get_ancestors_absent_returns_empty:
  "node \<notin> set (map child t) \<Longrightarrow> get_ancestors t node rootnode = Some (Inr [])"
  by (simp add: get_ancestors_def ancestors_loop_absent)

text \<open>Claim C8 on the worked example, for a name that is in no row.\<close>

theorem get_ancestors_absent_returns_empty_witness:
  "''zz'' \<notin> set (map child example_tree) \<and>
   get_ancestors example_tree ''zz'' None = Some (Inr [])"
proof -
  have h: "''zz'' \<notin> set (map child example_tree)"
    by (simp add: example_tree_def mk_row_def)
  from get_ancestors_absent_returns_empty [OF h] h show ?thesis by simp
qed

text \<open>
  Claim C8 as stated fails: the node \<open>zz\<close> is absent from the example tree and the call
  returns normally, with the empty list.
\<close>

theorem get_ancestors_absent_counterexample:
  "''zz'' \<notin> set (map child example_tree) \<and> ''zz'' \<notin> set (map parent example_tree) \<and>
   get_ancestors example_tree ''zz'' None = Some (Inr [])"
  by (simp add: get_ancestors_def ancestors_loop.simps parent_where_child_def
      example_tree_def mk_row_def)

lemma ancestors_loop_rootnode:
  assumes "ancestors_loop t rn cur acc = Some y"
  shows "rn = None \<longrightarrow> (\<forall>res. y = Inr res \<longrightarrow>
           (\<exists>chain. res = acc @ chain \<and> up_chain t cur chain \<and>
              (\<forall>r\<in>set chain. ancestors_loop t (Some r) cur acc =
                   Some (Inr (acc @ takeWhile (\<lambda>a. a \<noteq> r) chain @ [r])))))"
  using assms
proof (induction t rn cur acc y rule: ancestors_loop.raw_induct [rotated, consumes 1])
  case (1 f t rn cur acc y)
  show ?case
  proof (intro impI allI)
    fix res
    assume rn: "rn = None" and y: "y = Inr res"
    show "\<exists>chain. res = acc @ chain \<and> up_chain t cur chain \<and>
              (\<forall>r\<in>set chain. ancestors_loop t (Some r) cur acc =
                   Some (Inr (acc @ takeWhile (\<lambda>a. a \<noteq> r) chain @ [r])))"
    proof (cases "parent_where_child t cur")
      case Nil
      with 1(2) y have "res = acc" by simp
      then show ?thesis by (intro exI [of _ "[]"]) simp
    next
      case (Cons p ps)
      note outer = Cons
      show ?thesis
      proof (cases ps)
        case Nil
        note single = outer [unfolded Nil]
        show ?thesis
        proof (cases "p = []")
          case True
          with 1(2) y rn single have "res = acc @ [p]" by simp
          moreover have "ancestors_loop t (Some p) cur acc = Some (Inr (acc @ [p]))"
            by (subst ancestors_loop.simps) (simp add: single)
          ultimately show ?thesis
            by (intro exI [of _ "[p]"]) (simp add: single)
        next
          case False
          with 1(2) y rn single have "f t None p (acc @ [p]) = Some (Inr res)" by simp
          from 1(1) [OF this] obtain chain where
            c: "res = (acc @ [p]) @ chain" "up_chain t p chain"
            "\<forall>r\<in>set chain. ancestors_loop t (Some r) p (acc @ [p]) =
                   Some (Inr ((acc @ [p]) @ takeWhile (\<lambda>a. a \<noteq> r) chain @ [r]))"
            by blast
          have "\<forall>r\<in>set (p # chain). ancestors_loop t (Some r) cur acc =
                   Some (Inr (acc @ takeWhile (\<lambda>a. a \<noteq> r) (p # chain) @ [r]))"
          proof
            fix r assume r: "r \<in> set (p # chain)"
            show "ancestors_loop t (Some r) cur acc =
                   Some (Inr (acc @ takeWhile (\<lambda>a. a \<noteq> r) (p # chain) @ [r]))"
            proof (cases "r = p")
              case True
              then show ?thesis
                by (subst ancestors_loop.simps) (simp add: single)
            next
              case neq: False
              with r have "r \<in> set chain" by simp
              with c(3) have "ancestors_loop t (Some r) p (acc @ [p]) =
                   Some (Inr ((acc @ [p]) @ takeWhile (\<lambda>a. a \<noteq> r) chain @ [r]))" by blast
              with neq False show ?thesis
                by (subst ancestors_loop.simps) (simp add: single)
            qed
          qed
          with c(1,2) show ?thesis
            by (intro exI [of _ "p # chain"]) (simp add: single)
        qed
      next
        case (Cons q qs)
        with 1(2) y outer show ?thesis by simp
      qed
    qed
  qed
qed

lemma up_chain_prefix: "up_chain t n (xs @ ys) \<Longrightarrow> up_chain t n xs"
  by (induction xs arbitrary: n) auto

lemma takeWhile_neq_split:
  "r \<in> set xs \<Longrightarrow> \<exists>rest. xs = (takeWhile (\<lambda>a. a \<noteq> r) xs @ [r]) @ rest"
  by (induction xs) auto

text \<open>
  Claim C9, as the code has it: for a \<open>rootnode\<close> that lies on the node's ancestor path
  (the list the call without \<open>rootnode\<close> returns), \<open>get_ancestors(node, rootnode)\<close>
  returns that path up to and including the first occurrence of \<open>rootnode\<close>, and each
  entry is the parent of the one before it. The walk stops at \<open>rootnode\<close> inclusively.
\<close>

theorem get_ancestors_rootnode_inclusive:
  assumes "get_ancestors t node None = Some (Inr full)" and "r \<in> set full"
  shows "get_ancestors t node (Some r) = Some (Inr (takeWhile (\<lambda>a. a \<noteq> r) full @ [r]))
         \<and> up_chain t node (takeWhile (\<lambda>a. a \<noteq> r) full @ [r])"
proof -
  from assms have ne: "node \<noteq> []" by (auto simp: get_ancestors_def split: if_splits)
  with assms(1) have "ancestors_loop t None node [] = Some (Inr full)"
    by (simp add: get_ancestors_def)
  from ancestors_loop_rootnode [OF this] assms(2)
  obtain chain where "full = chain" "up_chain t node chain"
    "ancestors_loop t (Some r) node [] = Some (Inr (takeWhile (\<lambda>a. a \<noteq> r) chain @ [r]))"
    by auto
  moreover from takeWhile_neq_split [OF assms(2)] obtain rest where
    "full = (takeWhile (\<lambda>a. a \<noteq> r) full @ [r]) @ rest" ..
  ultimately have "up_chain t node ((takeWhile (\<lambda>a. a \<noteq> r) full @ [r]) @ rest)"
    by simp
  then have "up_chain t node (takeWhile (\<lambda>a. a \<noteq> r) full @ [r])"
    by (rule up_chain_prefix)
  moreover have "get_ancestors t node (Some r) =
      Some (Inr (takeWhile (\<lambda>a. a \<noteq> r) full @ [r]))"
    using \<open>ancestors_loop t (Some r) node [] = _\<close> \<open>full = chain\<close> ne
    by (simp add: get_ancestors_def)
  ultimately show ?thesis by simp
qed

text \<open>Claim C9 on the worked example, with \<open>R\<close> as \<open>rootnode\<close>.\<close>

theorem get_ancestors_rootnode_inclusive_witness:
  "get_ancestors example_tree ''a1'' None = Some (Inr [''A'', ''R'', ''root'']) \<and>
   ''R'' \<in> set [''A'', ''R'', ''root''] \<and>
   get_ancestors example_tree ''a1'' (Some ''R'') = Some (Inr [''A'', ''R''])"
proof -
  have h: "get_ancestors example_tree ''a1'' None = Some (Inr [''A'', ''R'', ''root''])"
    by (simp add: get_ancestors_def ancestors_loop.simps parent_where_child_def
      example_tree_def mk_row_def)
  have r: "''R'' \<in> set [''A'', ''R'', ''root'']" by simp
  from get_ancestors_rootnode_inclusive [OF h r] h show ?thesis by simp
qed

text \<open>
  Claim C9 as stated fails: with \<open>rootnode = R\<close> the list returned for \<open>a1\<close> ends
  with \<open>R\<close> itself.
\<close>

theorem get_ancestors_rootnode_counterexample:
  "get_ancestors example_tree ''a1'' (Some ''R'') = Some (Inr [''A'', ''R''])"
  by (simp add: get_ancestors_def ancestors_loop.simps parent_where_child_def
      example_tree_def mk_row_def)

section \<open>Facts about do\_merges\<close>

text \<open>
  Claim C10: when \<open>labels\<close> is not a numpy array, \<open>do_merges\<close> fails with
  \<open>AssertionError\<close> and the argument is left as it was: no relabelling has taken place.
\<close>

theorem do_merges_rejects_non_array:
  "\<not> isinstance_ndarray labels \<Longrightarrow>
   do_merges labels list_changes n_merges = (Inl AssertionError, labels)"
  by (simp add: do_merges_def)

text \<open>Claim C10 for a Python list of labels.\<close>

theorem do_merges_rejects_non_array_witness:
  "\<not> isinstance_ndarray (PyList [''a1'', ''a2'', ''B'']) \<and>
   do_merges (PyList [''a1'', ''a2'', ''B'']) [([''a1'', ''a2''], ''A'')] 1
     = (Inl AssertionError, PyList [''a1'', ''a2'', ''B''])"
  using do_merges_rejects_non_array
    [of "PyList [''a1'', ''a2'', ''B'']" "[([''a1'', ''a2''], ''A'')]" 1]
  by simp

section \<open>Facts about get\_descendants\<close>



lemma child_cyc: "child_where_parent cyclic_tree ''a'' = [''b'']" "child_where_parent cyclic_tree ''b'' = [''a'']"
  by (simp_all add: child_where_parent_def cyclic_tree_def mk_row_def)

lemma descendants_loop_cyclic:
  assumes "descendants_loop t cur acc = Some y"
  shows "\<not> (t = cyclic_tree \<and> cur \<noteq> [] \<and> set cur \<subseteq> {''a'', ''b''})"
  using assms
proof (induction t cur acc y rule: descendants_loop.raw_induct [rotated, consumes 1])
  case (1 f t cur acc y)
  show ?case
  proof
    assume a: "t = cyclic_tree \<and> cur \<noteq> [] \<and> set cur \<subseteq> {''a'', ''b''}"
    then obtain p rest where cur: "cur = p # rest" by (cases cur) auto
    with a have p: "p = ''a'' \<or> p = ''b''" and rest: "set rest \<subseteq> {''a'', ''b''}" by auto
    from 1(2) cur have run: "f t (rest @ child_where_parent t p) (acc @ child_where_parent t p) = Some y"
      by simp
    from p a rest have "rest @ child_where_parent t p \<noteq> [] \<and> set (rest @ child_where_parent t p) \<subseteq> {''a'', ''b''}"
      by (auto simp: child_cyc)
    with 1(1) [OF run] a show False by blast
  qed
qed

text \<open>
  Claim C5 as stated fails: on the table whose two rows point at each other the loop
  never returns, and it has no branch that raises.
\<close>

theorem get_descendants_cyclic_counterexample:
  "get_descendants cyclic_tree ''a'' = None"
proof (cases "get_descendants cyclic_tree ''a''")
  case None
  then show ?thesis .
next
  case (Some y)
  then have "descendants_loop cyclic_tree [''b''] [''b''] = Some y"
    by (simp add: get_descendants_def child_cyc)
  from descendants_loop_cyclic [OF this] show ?thesis by simp
qed

lemma finite_up_rel: "finite (up_rel t)"
  by (simp add: up_rel_def)

lemma child_where_parent_up: "c \<in> set (child_where_parent t p) \<Longrightarrow> (c, p) \<in> up_rel t"
  by (auto simp: child_where_parent_def up_rel_def)

lemma up_child_where_parent: "(c, p) \<in> up_rel t \<Longrightarrow> c \<in> set (child_where_parent t p)"
  by (auto simp: child_where_parent_def up_rel_def)

lemma above_cycle_child:
  assumes "above_cycle t p"
  shows "\<exists>c\<in>set (child_where_parent t p). above_cycle t c"
proof -
  from assms obtain d where d: "(d, p) \<in> (up_rel t)\<^sup>*" "(d, d) \<in> (up_rel t)\<^sup>+"
    unfolding above_cycle_def by blast
  then have "(d, p) \<in> (up_rel t)\<^sup>+" by (metis rtranclD)
  then obtain c where c: "(d, c) \<in> (up_rel t)\<^sup>*" "(c, p) \<in> up_rel t"
    by (meson tranclD2)
  from c(1) d(2) have "above_cycle t c"
    unfolding above_cycle_def by blast
  with up_child_where_parent [OF c(2)] show ?thesis by blast
qed

lemma above_cycle_parent:
  assumes "above_cycle t c" "(c, p) \<in> up_rel t"
  shows "above_cycle t p"
  using assms unfolding above_cycle_def
  by (meson rtrancl.rtrancl_into_rtrancl)

lemma descendants_loop_above_cycle:
  assumes "descendants_loop t cur acc = Some y"
  shows "\<not> (\<exists>x\<in>set cur. above_cycle t x)"
  using assms
proof (induction t cur acc y rule: descendants_loop.raw_induct [rotated, consumes 1])
  case (1 f t cur acc y)
  show ?case
  proof
    assume "\<exists>x\<in>set cur. above_cycle t x"
    then obtain x where x: "x \<in> set cur" "above_cycle t x" by blast
    then obtain p rest where cur: "cur = p # rest" by (cases cur) auto
    from 1(2) cur have run:
      "f t (rest @ child_where_parent t p) (acc @ child_where_parent t p) = Some y"
      by simp
    have "\<exists>x'\<in>set (rest @ child_where_parent t p). above_cycle t x'"
    proof (cases "x = p")
      case True
      with above_cycle_child [of t p] x(2) show ?thesis by auto
    next
      case False
      with x cur show ?thesis by auto
    qed
    with 1(1) [OF run] show False by blast
  qed
qed

lemma finite_sound_rel: "finite (sound_rel t)"
  by (simp add: sound_rel_def finite_up_rel)

lemma sound_rel_trancl: "(a, b) \<in> (sound_rel t)\<^sup>+ \<Longrightarrow> (a, b) \<in> (up_rel t)\<^sup>+"
  by (rule trancl_mono [of _ "sound_rel t"]) (auto simp: sound_rel_def)

lemma acyclic_sound_rel: "acyclic (sound_rel t)"
proof (rule acyclicI, rule allI, rule notI)
  fix x assume x: "(x, x) \<in> (sound_rel t)\<^sup>+"
  then obtain c where "(c, x) \<in> sound_rel t" by (meson tranclD2)
  then have "\<not> above_cycle t x" by (simp add: sound_rel_def)
  moreover from sound_rel_trancl [OF x] have "above_cycle t x"
    unfolding above_cycle_def by blast
  ultimately show False by simp
qed

lemma wf_sound_rel: "wf (sound_rel t)"
  by (rule finite_acyclic_wf [OF finite_sound_rel acyclic_sound_rel])

lemma descendants_loop_terminates:
  assumes "\<forall>x\<in>set cur. \<not> above_cycle t x"
  shows "\<exists>ds. descendants_loop t cur acc = Some ds"
proof -
  have "wf (mult (sound_rel t))" by (rule wf_mult [OF wf_sound_rel])
  then show ?thesis using assms
  proof (induction "mset cur" arbitrary: cur acc rule: wf_induct_rule)
    case less
    show ?case
    proof (cases cur)
      case Nil
      then show ?thesis by (subst descendants_loop.simps) simp
    next
      case (Cons p rest)
      with less.prems have p: "\<not> above_cycle t p" and rest: "\<forall>x\<in>set rest. \<not> above_cycle t x"
        by auto
      have kids: "\<forall>c\<in>set (child_where_parent t p). (c, p) \<in> sound_rel t \<and> \<not> above_cycle t c"
        using p above_cycle_parent [of t _ p]
        by (auto simp: sound_rel_def dest: child_where_parent_up)
      have "(mset rest + mset (child_where_parent t p), mset rest + {#p#}) \<in> mult (sound_rel t)"
        by (rule one_step_implies_mult) (use kids in auto)
      then have "(mset (rest @ child_where_parent t p), mset cur) \<in> mult (sound_rel t)"
        by (simp add: Cons)
      moreover from rest kids have "\<forall>x\<in>set (rest @ child_where_parent t p). \<not> above_cycle t x"
        by auto
      ultimately obtain ds where
        "descendants_loop t (rest @ child_where_parent t p) (acc @ child_where_parent t p) = Some ds"
        using less.hyps by blast
      then show ?thesis by (subst descendants_loop.simps) (simp add: Cons)
    qed
  qed
qed

lemma get_descendants_none_iff:
  "get_descendants t node = None \<longleftrightarrow>
     (\<exists>d. (d, node) \<in> (up_rel t)\<^sup>+ \<and> (d, d) \<in> (up_rel t)\<^sup>+)"
proof
  assume none: "get_descendants t node = None"
  show "\<exists>d. (d, node) \<in> (up_rel t)\<^sup>+ \<and> (d, d) \<in> (up_rel t)\<^sup>+"
  proof (rule ccontr)
    assume no: "\<not> (\<exists>d. (d, node) \<in> (up_rel t)\<^sup>+ \<and> (d, d) \<in> (up_rel t)\<^sup>+)"
    have "\<forall>x\<in>set (child_where_parent t node). \<not> above_cycle t x"
    proof (intro ballI notI)
      fix x assume x: "x \<in> set (child_where_parent t node)" "above_cycle t x"
      then obtain d where d: "(d, x) \<in> (up_rel t)\<^sup>*" "(d, d) \<in> (up_rel t)\<^sup>+"
        unfolding above_cycle_def by blast
      from d(1) child_where_parent_up [OF x(1)] have "(d, node) \<in> (up_rel t)\<^sup>+"
        by (rule rtrancl_into_trancl1)
      with d(2) no show False by blast
    qed
    from descendants_loop_terminates [OF this, of "child_where_parent t node"] none
    show False by (simp add: get_descendants_def)
  qed
next
  assume "\<exists>d. (d, node) \<in> (up_rel t)\<^sup>+ \<and> (d, d) \<in> (up_rel t)\<^sup>+"
  then obtain d where d: "(d, node) \<in> (up_rel t)\<^sup>+" "(d, d) \<in> (up_rel t)\<^sup>+" by blast
  from d(1) obtain c where c: "(d, c) \<in> (up_rel t)\<^sup>*" "(c, node) \<in> up_rel t"
    by (meson tranclD2)
  from c(1) d(2) have "above_cycle t c" unfolding above_cycle_def by blast
  with up_child_where_parent [OF c(2)]
  have bad: "\<exists>x\<in>set (child_where_parent t node). above_cycle t x" by blast
  show "get_descendants t node = None"
  proof (cases "get_descendants t node")
    case None
    then show ?thesis .
  next
    case (Some y)
    then have "descendants_loop t (child_where_parent t node) (child_where_parent t node) = Some y"
      by (simp add: get_descendants_def)
    from descendants_loop_above_cycle [OF this] bad show ?thesis by blast
  qed
qed

lemma distinct_child_where_parent:
  "distinct (map child t) \<Longrightarrow> distinct (child_where_parent t p)"
  by (simp add: child_where_parent_def distinct_map_filter)

lemma child_where_parent_row:
  "c \<in> set (child_where_parent t p) \<longleftrightarrow> (\<exists>r\<in>set t. child r = c \<and> parent r = p)"
  by (auto simp: child_where_parent_def)

lemma distinct_child_parent_unique:
  assumes "distinct (map child t)" "r \<in> set t" "r' \<in> set t" "child r = child r'"
  shows "r = r'"
  using assms by (meson distinct_map inj_onD)

lemma bfs_inv_step:
  assumes dc: "distinct (map child t)" and ac: "acyclic (up_rel t)"
    and inv: "bfs_inv t node (p # rest) acc"
  shows "bfs_inv t node (rest @ child_where_parent t p) (acc @ child_where_parent t p)"
proof -
  let ?kids = "child_where_parent t p"
  from inv obtain popped where
    d: "distinct acc" and acc: "acc = popped @ p # rest"
    and par: "\<forall>c\<in>set acc. \<exists>q\<in>insert node (set popped). c \<in> set (child_where_parent t q)"
    and desc: "\<forall>c\<in>set acc. (c, node) \<in> (up_rel t)\<^sup>+"
    unfolding bfs_inv_def by blast
  from acc desc have pdesc: "(p, node) \<in> (up_rel t)\<^sup>+" by simp
  have pnode: "p \<noteq> node"
    using pdesc ac by (auto simp: acyclic_def)
  from acc d have pdone: "p \<notin> set popped" by simp
  have disj: "set ?kids \<inter> set acc = {}"
  proof (rule ccontr)
    assume "set ?kids \<inter> set acc \<noteq> {}"
    then obtain c where ck: "c \<in> set ?kids" and ca: "c \<in> set acc" by blast
    from ck obtain r where r: "r \<in> set t" "child r = c" "parent r = p"
      by (auto simp: child_where_parent_row)
    from par ca obtain q where q: "q \<in> insert node (set popped)" "c \<in> set (child_where_parent t q)"
      by blast
    then obtain r' where r': "r' \<in> set t" "child r' = c" "parent r' = q"
      by (auto simp: child_where_parent_row)
    from distinct_child_parent_unique [OF dc r(1) r'(1)] r r' have "p = q" by auto
    with q(1) pnode pdone show False by auto
  qed
  have 1: "distinct (acc @ ?kids)"
    using d distinct_child_where_parent [OF dc, of p] disj by auto
  have 2: "acc @ ?kids = (popped @ [p]) @ (rest @ ?kids)"
    by (simp add: acc)
  have 3: "\<forall>c\<in>set (acc @ ?kids). \<exists>q\<in>insert node (set (popped @ [p])).
             c \<in> set (child_where_parent t q)"
    using par by auto
  have 4: "\<forall>c\<in>set (acc @ ?kids). (c, node) \<in> (up_rel t)\<^sup>+"
  proof
    fix c assume "c \<in> set (acc @ ?kids)"
    then consider "c \<in> set acc" | "c \<in> set ?kids" by auto
    then show "(c, node) \<in> (up_rel t)\<^sup>+"
    proof cases
      case 1
      with desc show ?thesis by blast
    next
      case 2
      then have "(c, p) \<in> up_rel t" by (rule child_where_parent_up)
      with pdesc show ?thesis by (meson trancl_into_trancl2)
    qed
  qed
  from 1 2 3 4 show ?thesis
    unfolding bfs_inv_def by blast
qed

lemma descendants_loop_distinct:
  assumes "descendants_loop t cur acc = Some ds"
  shows "distinct (map child t) \<longrightarrow> acyclic (up_rel t) \<longrightarrow>
         (\<forall>node. bfs_inv t node cur acc \<longrightarrow> distinct ds \<and> (\<forall>c\<in>set ds. (c, node) \<in> (up_rel t)\<^sup>+))"
  using assms
proof (induction t cur acc ds rule: descendants_loop.raw_induct [rotated, consumes 1])
  case (1 f t cur acc ds)
  show ?case
  proof (intro impI allI)
    fix node
    assume dc: "distinct (map child t)" and ac: "acyclic (up_rel t)"
      and inv: "bfs_inv t node cur acc"
    show "distinct ds \<and> (\<forall>c\<in>set ds. (c, node) \<in> (up_rel t)\<^sup>+)"
    proof (cases cur)
      case Nil
      with 1(2) have "ds = acc" by simp
      with inv show ?thesis by (simp add: bfs_inv_def)
    next
      case (Cons p rest)
      with 1(2) have run:
        "f t (rest @ child_where_parent t p) (acc @ child_where_parent t p) = Some ds"
        by simp
      from bfs_inv_step [OF dc ac inv [unfolded Cons]] 1(1) [OF run] dc ac
      show ?thesis by blast
    qed
  qed
qed

lemma bfs_inv_init:
  assumes "distinct (map child t)"
  shows "bfs_inv t node (child_where_parent t node) (child_where_parent t node)"
proof -
  have "\<forall>c\<in>set (child_where_parent t node). (c, node) \<in> (up_rel t)\<^sup>+"
    by (auto dest: child_where_parent_up)
  moreover have "child_where_parent t node = [] @ child_where_parent t node" by simp
  ultimately show ?thesis
    unfolding bfs_inv_def
    using distinct_child_where_parent [OF assms, of node] by (intro conjI exI [of _ "[]"]) auto
qed

lemma acyclic_example_tree: "acyclic (up_rel example_tree)"
proof (rule acyclicI_order)
  fix a b assume "(a, b) \<in> up_rel example_tree"
  then show "(\<lambda>s. if s = ''root'' then 0 else if s = ''R'' then 1
                   else if s = ''A'' \<or> s = ''B'' then 2 else (3::nat)) b
           < (\<lambda>s. if s = ''root'' then 0 else if s = ''R'' then 1
                   else if s = ''A'' \<or> s = ''B'' then 2 else (3::nat)) a"
    by (auto simp: up_rel_def example_tree_def mk_row_def)
qed

text \<open>
  Claim C5, as the code has it: \<open>get_descendants\<close> fails to return exactly when some
  descendant of \<open>node\<close> (a name from which \<open>node\<close> is reached along child-to-parent edges)
  lies on a cycle of those edges; the code has no branch that raises. In particular, on
  every table whose child-to-parent edges are acyclic, \<open>get_descendants\<close> returns, with
  and without \<open>leafonly\<close>; when no name has two rows (the \<open>child\<close> column is
  duplicate-free) no name is emitted twice.
\<close>

theorem get_descendants_returns_iff_no_cycle_below:
  "(get_descendants t node = None \<longleftrightarrow>
      (\<exists>d. (d, node) \<in> (up_rel t)\<^sup>+ \<and> (d, d) \<in> (up_rel t)\<^sup>+)) \<and>
   (acyclic (up_rel t) \<longrightarrow>
      (\<exists>ds. get_descendants t node = Some ds \<and>
         get_descendants_leafonly t node = Some (set ds \<inter> set (map child (filter isleaf t))) \<and>
         (distinct (map child t) \<longrightarrow> distinct ds)))"
proof (intro conjI impI)
  show "get_descendants t node = None \<longleftrightarrow>
      (\<exists>d. (d, node) \<in> (up_rel t)\<^sup>+ \<and> (d, d) \<in> (up_rel t)\<^sup>+)"
    by (rule get_descendants_none_iff)
next
  assume ac: "acyclic (up_rel t)"
  then have "get_descendants t node \<noteq> None"
    by (auto simp: get_descendants_none_iff acyclic_def)
  then obtain ds where
    ds: "descendants_loop t (child_where_parent t node) (child_where_parent t node) = Some ds"
    by (auto simp: get_descendants_def)
  have "distinct (map child t) \<longrightarrow> distinct ds"
    using descendants_loop_distinct [OF ds] bfs_inv_init [of t node] ac by blast
  with ds show "\<exists>ds. get_descendants t node = Some ds \<and>
         get_descendants_leafonly t node = Some (set ds \<inter> set (map child (filter isleaf t))) \<and>
         (distinct (map child t) \<longrightarrow> distinct ds)"
    by (simp add: get_descendants_def get_descendants_leafonly_def)
qed

text \<open>
  Claim C5 on the worked example: the edges are acyclic, the call for \<open>R\<close> returns the
  descendants of \<open>R\<close>, each once. On \<open>cyclic_tree\<close> the call for a name that has no
  descendants returns as well.
\<close>

theorem get_descendants_returns_iff_no_cycle_below_witness:
  "acyclic (up_rel example_tree) \<and> distinct (map child example_tree) \<and>
   get_descendants example_tree ''R'' = Some [''B'', ''A'', ''a1'', ''a2''] \<and>
   get_descendants_leafonly example_tree ''R'' = Some {''B'', ''a1'', ''a2''} \<and>
   distinct [''B'', ''A'', ''a1'', ''a2''] \<and>
   get_descendants cyclic_tree ''zz'' = Some []"
proof -
  have z: "get_descendants cyclic_tree ''zz'' = Some []"
    by (simp add: get_descendants_def descendants_loop.simps child_where_parent_def
        cyclic_tree_def mk_row_def)
  have d: "distinct (map child example_tree)"
    by (simp add: example_tree_def mk_row_def)
  have v: "get_descendants example_tree ''R'' = Some [''B'', ''A'', ''a1'', ''a2'']"
    by (simp add: get_descendants_def descendants_loop.simps child_where_parent_def
        example_tree_def mk_row_def)
  have l: "set [''B'', ''A'', ''a1'', ''a2''] \<inter> set (map child (filter isleaf example_tree))
      = {''B'', ''a1'', ''a2''}"
    by (auto simp: example_tree_def mk_row_def)
  from get_descendants_returns_iff_no_cycle_below [of example_tree "''R''"] d v l z
  show ?thesis using acyclic_example_tree by simp
qed

section \<open>Facts about get\_mergeseq and do\_merges\<close>

lemma float64_exponent_log:
  assumes "v \<noteq> 0"
  shows "float64_exponent v = \<lfloor>log 2 \<bar>v\<bar>\<rfloor>"
proof (cases "1 \<le> \<bar>v\<bar>")
  case True
  let ?n = "nat \<lfloor>\<bar>v\<bar>\<rfloor>"
  from True have n: "0 < ?n" by simp
  let ?k = "floorlog 2 ?n"
  from floorlog_bounds [of ?n 2] n have b: "2 ^ (?k - 1) \<le> ?n" "?n < 2 ^ ?k" by auto
  from n have k: "0 < ?k" by (simp add: floorlog_eq_zero_iff [THEN iffD1] floorlog_def)
  have nv: "real ?n \<le> \<bar>v\<bar>" "\<bar>v\<bar> < real ?n + 1"
    using True by (simp_all add: of_nat_nat)
  from b(1) have "real (2 ^ (?k - 1)) \<le> real ?n" by (rule of_nat_mono)
  then have "(2::real) ^ (?k - 1) \<le> real ?n" by simp
  with nv(1) have lo: "2 ^ (?k - 1) \<le> \<bar>v\<bar>" by linarith
  from b(2) have "?n + 1 \<le> 2 ^ ?k" by linarith
  then have "real (?n + 1) \<le> real (2 ^ ?k)" by (rule of_nat_mono)
  then have "real ?n + 1 \<le> (2::real) ^ ?k" by simp
  with nv(2) have hi: "\<bar>v\<bar> < 2 ^ ?k" by linarith
  have "\<lfloor>log 2 \<bar>v\<bar>\<rfloor> = int ?k - 1"
  proof (subst floor_log_eq_powr_iff)
    show "0 < \<bar>v\<bar>" using assms by simp
    show "(1::real) < 2" by simp
    have "2 powr real_of_int (int ?k - 1) = (2::real) ^ (?k - 1)"
      using k by (simp add: powr_realpow [symmetric] of_nat_diff)
    moreover have "2 powr real_of_int (int ?k - 1 + 1) = (2::real) ^ ?k"
      by (simp add: powr_realpow [symmetric])
    ultimately show "2 powr real_of_int (int ?k - 1) \<le> \<bar>v\<bar> \<and>
        \<bar>v\<bar> < 2 powr real_of_int (int ?k - 1 + 1)"
      using lo hi by simp
  qed
  with True show ?thesis by (simp add: float64_exponent_def bitlen_def)
next
  case False
  let ?w = "1 / \<bar>v\<bar>"
  from False assms have w: "1 < ?w" by simp
  let ?n = "nat (\<lceil>?w\<rceil> - 1)"
  from w have c: "2 \<le> \<lceil>?w\<rceil>" by linarith
  then have n: "0 < ?n" by simp
  let ?k = "floorlog 2 ?n"
  from floorlog_bounds [of ?n 2] n have b: "2 ^ (?k - 1) \<le> ?n" "?n < 2 ^ ?k" by auto
  from n have k: "0 < ?k" by (simp add: floorlog_def)
  from c have "0 \<le> \<lceil>?w\<rceil> - 1" by linarith
  then have "real ?n = real_of_int (\<lceil>?w\<rceil> - 1)" by (rule of_nat_nat)
  then have rn: "real ?n = of_int \<lceil>?w\<rceil> - 1" by (simp only: of_int_diff of_int_1)
  have nw: "real ?n < ?w" "?w \<le> real ?n + 1"
    unfolding rn by linarith+
  from b(1) have "real (2 ^ (?k - 1)) \<le> real ?n" by (rule of_nat_mono)
  then have "(2::real) ^ (?k - 1) \<le> real ?n" by simp
  with nw(1) have lo: "2 ^ (?k - 1) < ?w" by linarith
  from b(2) have "?n + 1 \<le> 2 ^ ?k" by linarith
  then have "real (?n + 1) \<le> real (2 ^ ?k)" by (rule of_nat_mono)
  then have "real ?n + 1 \<le> (2::real) ^ ?k" by simp
  with nw(2) have hi: "?w \<le> 2 ^ ?k" by linarith
  have vpos: "0 < \<bar>v\<bar>" using assms by simp
  from hi vpos have lo': "1 / 2 ^ ?k \<le> \<bar>v\<bar>"
    by (simp add: field_simps)
  from lo vpos have hi': "\<bar>v\<bar> < 1 / 2 ^ (?k - 1)"
    by (simp add: field_simps)
  have "\<lfloor>log 2 \<bar>v\<bar>\<rfloor> = - int ?k"
  proof (subst floor_log_eq_powr_iff)
    show "0 < \<bar>v\<bar>" by (rule vpos)
    show "(1::real) < 2" by simp
    have "2 powr real_of_int (- int ?k) = 1 / (2::real) ^ ?k"
      by (simp add: powr_minus_divide powr_realpow [symmetric])
    moreover have "2 powr real_of_int (- int ?k + 1) = 1 / (2::real) ^ (?k - 1)"
    proof -
      have "real_of_int (- int ?k + 1) = - real (?k - 1)" using k by (simp add: of_nat_diff)
      then show ?thesis by (simp only: powr_minus_divide powr_realpow [symmetric])
    qed
    ultimately show "2 powr real_of_int (- int ?k) \<le> \<bar>v\<bar> \<and>
        \<bar>v\<bar> < 2 powr real_of_int (- int ?k + 1)"
      using lo' hi' by simp
  qed
  with False show ?thesis by (simp add: float64_exponent_def bitlen_def)
qed

lemma power_int_two_powr: "power_int 2 e = (2::real) powr (of_int e)"
  by (simp add: powr_real_of_int')

lemma float64_round_log:
  "float64_round v =
     (if v = 0 then 0
      else of_int (ties_even (v / 2 powr (of_int (\<lfloor>log 2 \<bar>v\<bar>\<rfloor> - 52)))) *
             2 powr (of_int (\<lfloor>log 2 \<bar>v\<bar>\<rfloor> - 52)))"
  by (simp add: float64_round_def Let_def float64_exponent_log power_int_two_powr)

lemma float64_round_binade:
  assumes "2 powr (of_int k) \<le> v" "v < 2 powr (of_int k + 1)"
  shows "float64_round v = of_int (ties_even (v / 2 powr (of_int (k - 52)))) * 2 powr (of_int (k - 52))"
proof -
  have pos: "0 < v" using assms(1) powr_gt_zero [of 2 "of_int k"] by linarith
  then have "\<lfloor>log 2 \<bar>v\<bar>\<rfloor> = k"
    using assms by (simp add: floor_log_eq_powr_iff)
  with pos show ?thesis by (simp add: float64_round_log)
qed

lemma add_tenth_2: "add_tenth 2 = 4728779608739021 / 2251799813685248"
proof -
  have "float64_round (2 + float64_tenth) =
          of_int (ties_even ((2 + float64_tenth) / 2 powr (of_int (1 - 52)))) * 2 powr (of_int (1 - 52))"
    by (rule float64_round_binade) (simp_all add: float64_tenth_def)
  also have "2 powr (of_int (1 - 52)) = (1 / 2 ^ 51 :: real)"
    by (simp add: powr_minus_divide powr_realpow [symmetric])
  also have "ties_even ((2 + float64_tenth) / (1 / 2 ^ 51)) = 4728779608739021"
    by (simp add: ties_even_def float64_tenth_def Let_def)
  finally show ?thesis by (simp add: add_tenth_def)
qed

lemma add_tenth_1e17: "add_tenth (10 ^ 17) = 10 ^ 17"
proof -
  have "float64_round (10 ^ 17 + float64_tenth) =
          of_int (ties_even ((10 ^ 17 + float64_tenth) / 2 powr (of_int (56 - 52)))) * 2 powr (of_int (56 - 52))"
    by (rule float64_round_binade) (simp_all add: float64_tenth_def)
  also have "2 powr (of_int (56 - 52)) = (16 :: real)"
    by (simp add: powr_realpow [symmetric])
  also have "ties_even ((10 ^ 17 + float64_tenth) / 16) = 6250000000000000"
    by (simp add: ties_even_def float64_tenth_def Let_def)
  finally show ?thesis by (simp add: add_tenth_def)
qed


lemma add_tenth_1e17_numeral: "add_tenth 100000000000000000 = 100000000000000000"
  using add_tenth_1e17 by simp

lemma add_tenth_3: "add_tenth 3 = 6980579422424269 / 2251799813685248"
proof -
  have "float64_round (3 + float64_tenth) =
          of_int (ties_even ((3 + float64_tenth) / 2 powr (of_int (1 - 52)))) * 2 powr (of_int (1 - 52))"
    by (rule float64_round_binade) (simp_all add: float64_tenth_def)
  also have "2 powr (of_int (1 - 52)) = (1 / 2 ^ 51 :: real)"
    by (simp add: powr_minus_divide powr_realpow [symmetric])
  also have "ties_even ((3 + float64_tenth) / (1 / 2 ^ 51)) = 6980579422424269"
    by (simp add: ties_even_def float64_tenth_def Let_def)
  finally show ?thesis by (simp add: add_tenth_def)
qed

lemma ties_even_err: "\<bar>of_int (ties_even z) - z\<bar> \<le> 1 / 2"
proof -
  have "of_int \<lfloor>z\<rfloor> \<le> z" "z < of_int \<lfloor>z\<rfloor> + 1" by linarith+
  then show ?thesis
    by (auto simp: ties_even_def Let_def)
qed

lemma float64_round_err:
  assumes "v \<noteq> 0"
  shows "\<bar>float64_round v - v\<bar> \<le> 2 powr (of_int (\<lfloor>log 2 \<bar>v\<bar>\<rfloor> - 52)) / 2"
proof -
  let ?q = "2 powr (of_int (\<lfloor>log 2 \<bar>v\<bar>\<rfloor> - 52)) :: real"
  have q: "0 < ?q" by simp
  have "float64_round v - v = (of_int (ties_even (v / ?q)) - v / ?q) * ?q"
    using assms q by (simp add: float64_round_log algebra_simps)
  then have "\<bar>float64_round v - v\<bar> = \<bar>of_int (ties_even (v / ?q)) - v / ?q\<bar> * ?q"
    using q by (simp add: abs_mult)
  also have "\<dots> \<le> (1 / 2) * ?q"
    by (rule mult_right_mono [OF ties_even_err]) simp
  finally show ?thesis by simp
qed

lemma add_tenth_gt:
  assumes "\<bar>m\<bar> \<le> 2 ^ 49"
  shows "m < add_tenth m"
proof (cases "m + float64_tenth = 0")
  case True
  then show ?thesis by (simp add: add_tenth_def float64_round_def float64_tenth_def)
next
  case False
  let ?v = "m + float64_tenth"
  from assms have "\<bar>?v\<bar> < 2 ^ 50" by (simp add: float64_tenth_def)
  then have "\<bar>?v\<bar> < 2 powr 50" by simp
  with False have "log 2 \<bar>?v\<bar> < 50"
    by (simp add: log_less_iff)
  then have "\<lfloor>log 2 \<bar>?v\<bar>\<rfloor> - 52 \<le> - 3" by linarith
  then have "2 powr (of_int (\<lfloor>log 2 \<bar>?v\<bar>\<rfloor> - 52)) \<le> (2 :: real) powr (of_int (- 3))"
    by (intro powr_mono) simp_all
  also have "\<dots> = 1 / 8" by (simp add: powr_minus_divide)
  finally have "2 powr (of_int (\<lfloor>log 2 \<bar>?v\<bar>\<rfloor> - 52)) / 2 \<le> (1 / 16 :: real)" by simp
  with float64_round_err [OF False] have "\<bar>float64_round ?v - ?v\<bar> \<le> 1 / 16" by linarith
  then have "?v - 1 / 16 \<le> float64_round ?v" by linarith
  moreover have "m < ?v - 1 / 16" by (simp add: float64_tenth_def)
  ultimately show ?thesis unfolding add_tenth_def by linarith
qed

lemma sentinel_above_bounded:
  assumes "\<forall>r\<in>set t. \<bar>y_coord r\<bar> \<le> 2 ^ 49"
  shows "sentinel_above t"
proof (cases "t = []")
  case True
  then show ?thesis by (simp add: sentinel_above_def)
next
  case False
  let ?m = "np_max (map y_coord t)"
  from False have "?m \<in> set (map y_coord t)"
    unfolding np_max_def by (intro Max_in) auto
  with assms have "\<bar>?m\<bar> \<le> 2 ^ 49" by auto
  then have "?m < add_tenth ?m" by (rule add_tenth_gt)
  moreover have "\<forall>r\<in>set t. y_coord r \<le> ?m"
    unfolding np_max_def by (auto intro: Max_ge)
  ultimately show ?thesis
    unfolding sentinel_above_def sentinel_height_def by fastforce
qed

lemma merge_loop_butlast:
  "merge_loop t ps = map (\<lambda>p. (child_where_parent t p, p)) (butlast ps)"
  by (induction t ps rule: merge_loop.induct) simp_all

lemma filter_child_le_one:
  "distinct (map child t) \<Longrightarrow> length (filter (\<lambda>r. child r = l) t) \<le> Suc 0"
proof (induction t)
  case Nil
  then show ?case by simp
next
  case (Cons a t)
  from Cons.prems have "child a = l \<Longrightarrow> filter (\<lambda>r. child r = l) t = []"
    by (auto simp: filter_empty_conv image_iff)
  with Cons show ?case by auto
qed

lemma filter_child_cases:
  assumes "distinct (map child t)"
  obtains "l \<notin> set (map child t)" "filter (\<lambda>r. child r = l) t = []"
  | r where "r \<in> set t" "child r = l" "filter (\<lambda>r. child r = l) t = [r]"
proof (cases "filter (\<lambda>r. child r = l) t")
  case Nil
  then have "l \<notin> set (map child t)" by (auto simp: filter_empty_conv)
  with Nil that show ?thesis by blast
next
  case (Cons r rs)
  with filter_child_le_one [OF assms, of l] have rs: "rs = []" by simp
  from Cons have "r \<in> set (filter (\<lambda>r. child r = l) t)" by simp
  then have "r \<in> set t" "child r = l" by auto
  with Cons rs that show ?thesis by blast
qed

lemma merge_heights_map:
  assumes "distinct (map child t)"
  shows "merge_heights t labels = map (merge_height t) labels"
proof -
  have "(if l \<in> set (map child t) then map y_coord (filter (\<lambda>r. child r = l) t)
         else [add_tenth (np_max (map y_coord t))]) = [merge_height t l]" for l
    by (rule filter_child_cases [OF assms, of l])
      (auto simp: merge_height_def sentinel_height_def)
  then show ?thesis
    by (induction labels) (simp_all add: merge_heights_def)
qed

lemma argsort_spec_set:
  "argsort_spec f \<Longrightarrow> set (f ks) = {0..<length ks}"
  by (metis argsort_spec_def set_mset_mset set_upt)

lemma argsort_spec_permutes:
  assumes "argsort_spec f" "length ks = length xs"
  shows "mset (map (\<lambda>i. xs ! i) (f ks)) = mset xs"
proof -
  have "mset (map (\<lambda>i. xs ! i) (f ks)) = image_mset (\<lambda>i. xs ! i) (mset (f ks))" by simp
  also have "\<dots> = image_mset (\<lambda>i. xs ! i) (mset [0..<length xs])"
    using assms by (simp add: argsort_spec_def)
  also have "\<dots> = mset (map (\<lambda>i. xs ! i) [0..<length xs])" by simp
  also have "\<dots> = mset xs" by (simp add: map_nth)
  finally show ?thesis .
qed

lemma argsort_spec_sorted:
  assumes "argsort_spec f"
  shows "sorted (map g (map (\<lambda>i. xs ! i) (f (map g xs))))"
proof -
  have eq: "map g (map (\<lambda>i. xs ! i) (f (map g xs))) = map (\<lambda>i. map g xs ! i) (f (map g xs))"
    using argsort_spec_set [OF assms, of "map g xs"] by auto
  from assms have "sorted (map (\<lambda>i. map g xs ! i) (f (map g xs)))"
    unfolding argsort_spec_def by blast
  then show ?thesis by (simp only: eq)
qed

lemma get_mergeseq_shape:
  assumes "argsort_spec argsort" "distinct (map child t)"
  shows "\<exists>ordered. get_mergeseq argsort t =
            Inr (map (\<lambda>p. (child_where_parent t p, p)) (butlast ordered)) \<and>
          mset ordered = mset (merge_candidates t) \<and>
          sorted (map (merge_height t) ordered) \<and>
          (argsort_keeps_ties argsort (map (merge_height t) (merge_candidates t)) \<longrightarrow>
             (\<forall>k. filter (\<lambda>p. merge_height t p = k) ordered =
                  filter (\<lambda>p. merge_height t p = k) (merge_candidates t)))"
proof -
  let ?omp = "merge_candidates t"
  let ?y = "map (merge_height t) ?omp"
  let ?ordered = "map (\<lambda>i. ?omp ! i) (argsort ?y)"
  have bound: "\<forall>i\<in>set (argsort ?y). i < length ?omp"
    using argsort_spec_set [OF assms(1), of ?y] by simp
  then have "get_mergeseq argsort t = Inr (merge_loop t ?ordered)"
    by (simp add: get_mergeseq_def merge_candidates_def [symmetric] merge_heights_map [OF assms(2)] Let_def)
  moreover have "mset ?ordered = mset ?omp"
    by (rule argsort_spec_permutes [OF assms(1)]) simp
  moreover have "sorted (map (merge_height t) ?ordered)"
    by (rule argsort_spec_sorted [OF assms(1)])
  moreover have "argsort_keeps_ties argsort ?y \<longrightarrow>
      (\<forall>k. filter (\<lambda>p. merge_height t p = k) ?ordered = filter (\<lambda>p. merge_height t p = k) ?omp)"
  proof (intro impI allI)
    fix k assume keeps: "argsort_keeps_ties argsort ?y"
    have "filter (\<lambda>p. merge_height t p = k) ?ordered =
            map (\<lambda>i. ?omp ! i) (filter (\<lambda>i. merge_height t (?omp ! i) = k) (argsort ?y))"
      by (simp add: filter_map comp_def)
    also have "filter (\<lambda>i. merge_height t (?omp ! i) = k) (argsort ?y) =
            filter (\<lambda>i. ?y ! i = k) (argsort ?y)"
      using bound by (intro filter_cong) auto
    also have "\<dots> = filter (\<lambda>i. ?y ! i = k) [0..<length ?y]"
      using keeps unfolding argsort_keeps_ties_def by blast
    also have "\<dots> = filter (\<lambda>i. merge_height t (?omp ! i) = k) [0..<length ?omp]"
      by (intro filter_cong) auto
    also have "map (\<lambda>i. ?omp ! i) \<dots> =
            filter (\<lambda>p. merge_height t p = k) (map (\<lambda>i. ?omp ! i) [0..<length ?omp])"
      by (simp add: filter_map comp_def)
    also have "\<dots> = filter (\<lambda>p. merge_height t p = k) ?omp"
      by (simp add: map_nth)
    finally show "filter (\<lambda>p. merge_height t p = k) ?ordered =
        filter (\<lambda>p. merge_height t p = k) ?omp" .
  qed
  ultimately show ?thesis
    by (auto simp: merge_loop_butlast)
qed


lemma argsort_stable_spec: "argsort_spec argsort_stable"
  by (simp add: argsort_spec_def argsort_stable_def)


lemma merge_one_map:
  "merge_one dt (cs, p) labels = map (\<lambda>l. if l \<in> set cs then stored dt p else l) labels"
proof -
  have "fold (\<lambda>c ls. relabel dt c p ls) cs labels =
          map (\<lambda>l. if l \<in> set cs then stored dt p else l) labels"
    by (induction cs arbitrary: labels) (auto simp: relabel_def)
  then show ?thesis by (simp add: merge_one_def)
qed

lemma merges_loop_fold:
  "merges_loop dt i n lc labels = fold (merge_one dt) (take (n - i) (drop i lc)) labels"
proof (induction dt i n lc labels rule: merges_loop.induct)
  case (1 dt i n lc labels)
  show ?case
  proof (cases "i < n \<and> i < length lc")
    case True
    then have "take (n - i) (drop i lc) = lc ! i # take (n - (i + 1)) (drop (i + 1) lc)"
      by (metis Cons_nth_drop_Suc Suc_diff_Suc Suc_eq_plus1 take_Suc_Cons)
    with True 1 show ?thesis
      by (subst merges_loop.simps) simp
  next
    case False
    then show ?thesis
      by (subst merges_loop.simps) auto
  qed
qed

lemma fold_merge_one_avoids:
  assumes "set labels \<inter> S = {}" "\<forall>r'\<in>set rs. snd r' \<notin> S" "holds_parents dt rs"
  shows "set (fold (merge_one dt) rs labels) \<inter> S = {}"
  using assms
proof (induction rs arbitrary: labels)
  case Nil
  then show ?case by simp
next
  case (Cons r rs)
  obtain cs p where r: "r = (cs, p)" by (cases r)
  with Cons.prems have "set (merge_one dt r labels) \<inter> S = {}"
    by (auto simp: merge_one_map holds_parents_def)
  with Cons show ?case by (simp add: holds_parents_def)
qed

lemma fold_merge_one_collapsed:
  assumes "ordered_records seq" "r \<in> set seq" "holds_parents dt seq"
  shows "set (fold (merge_one dt) seq labels) \<inter> set (fst r) = {}"
  using assms
proof (induction seq arbitrary: labels)
  case Nil
  then show ?case by simp
next
  case (Cons a seq)
  from Cons.prems(3) have hp: "stored dt (snd a) = snd a" "holds_parents dt seq"
    by (simp_all add: holds_parents_def)
  show ?case
  proof (cases "r = a")
    case True
    obtain cs p where a: "a = (cs, p)" by (cases a)
    with Cons.prems(1) hp(1) have "set (merge_one dt a labels) \<inter> set (fst a) = {}"
      by (auto simp: merge_one_map)
    moreover from Cons.prems(1) have "\<forall>r'\<in>set seq. snd r' \<notin> set (fst a)" by simp
    ultimately have "set (fold (merge_one dt) seq (merge_one dt a labels)) \<inter> set (fst a) = {}"
      using hp(2) by (rule fold_merge_one_avoids)
    with True show ?thesis by simp
  next
    case False
    with Cons.prems have "r \<in> set seq" "ordered_records seq" by auto
    from Cons.IH [OF this(2,1) hp(2)] show ?thesis by simp
  qed
qed

lemma ordered_records_sorted:
  assumes "sorted (map h ps)"
    and "\<forall>p\<in>set ps. \<forall>q\<in>set ps. q \<in> set (kids p) \<longrightarrow> h q < h p"
  shows "ordered_records (map (\<lambda>p. (kids p, p)) ps)"
  using assms
proof (induction ps)
  case Nil
  then show ?case by simp
next
  case (Cons p ps)
  from Cons.prems(2) have self: "p \<notin> set (kids p)" by force
  have later: "\<forall>q\<in>set ps. q \<notin> set (kids p)"
  proof
    fix q assume q: "q \<in> set ps"
    with Cons.prems(1) have "h p \<le> h q" by simp
    with Cons.prems(2) q show "q \<notin> set (kids p)" by force
  qed
  from Cons have "ordered_records (map (\<lambda>p. (kids p, p)) ps)" by simp
  with self later show ?case by simp
qed

lemma merge_candidates_parent:
  "p \<in> set (merge_candidates t) \<Longrightarrow> p \<in> set (map parent t)"
  by (auto simp: merge_candidates_def setdiff1d_def)

lemma merge_height_row:
  assumes "distinct (map child t)" "r \<in> set t"
  shows "merge_height t (child r) = y_coord r"
proof (rule filter_child_cases [OF assms(1), of "child r"])
  assume "child r \<notin> set (map child t)"
  with assms(2) show ?thesis by simp
next
  fix r' assume r': "r' \<in> set t" "child r' = child r" "filter (\<lambda>x. child x = child r) t = [r']"
  from distinct_child_parent_unique [OF assms(1) r'(1) assms(2) r'(2)] r'(3)
  show ?thesis by (simp add: merge_height_def)
qed

lemma merge_height_no_row:
  assumes "l \<notin> set (map child t)"
  shows "merge_height t l = sentinel_height t"
proof -
  from assms have "filter (\<lambda>r. child r = l) t = []"
    by (auto simp: filter_empty_conv)
  then show ?thesis by (simp add: merge_height_def)
qed

lemma merge_height_sentinel:
  assumes "sentinel_above t" "l \<notin> set (map child t)" "r \<in> set t"
  shows "y_coord r < merge_height t l"
  using assms by (simp add: merge_height_no_row sentinel_above_def)

lemma child_lower_height:
  assumes dc: "distinct (map child t)" and hi: "heights_increase t" and sa: "sentinel_above t"
    and q: "q \<in> set (child_where_parent t p)" "q \<in> set (map parent t)"
  shows "merge_height t q < merge_height t p"
proof -
  from q(1) obtain r' where r': "r' \<in> set t" "child r' = q" "parent r' = p"
    by (auto simp: child_where_parent_row)
  from merge_height_row [OF dc r'(1)] r'(2) have hq: "merge_height t q = y_coord r'" by simp
  show ?thesis
  proof (cases "p \<in> set (map child t)")
    case True
    then obtain r where r: "r \<in> set t" "child r = p" by auto
    from merge_height_row [OF dc r(1)] r(2) have "merge_height t p = y_coord r" by simp
    moreover from hi r r' q(2) have "y_coord r' < y_coord r"
      unfolding heights_increase_def by blast
    ultimately show ?thesis using hq by simp
  next
    case False
    from merge_height_sentinel [OF sa False r'(1)] hq show ?thesis by simp
  qed
qed

text \<open>
  Claim C3, as the code has it: for a table without duplicate \<open>child\<close> entries, whose
  heights grow strictly from every inner node to its parent and whose float64 sum
  \<open>max(y) + 0.1\<close> is greater than every \<open>y\<close>, and for every label array of every dtype,
  \<open>do_merges\<close> applies the whole sequence of \<open>get_mergeseq\<close>; when the dtype holds the
  parent label of every record uncut (dtype \<open>object\<close> always does), no label is left that
  is listed among the children of any record. This holds for every sort that meets
  \<open>argsort_spec\<close>.
\<close>

theorem do_merges_fully_collapsed:
  assumes "argsort_spec argsort" "distinct (map child t)" "heights_increase t"
    "sentinel_above t"
  shows "\<exists>seq res. get_mergeseq argsort t = Inr seq \<and>
           do_merges (Ndarray dt labels) seq (int (length seq)) = (Inr res, Ndarray dt res) \<and>
           (holds_parents dt seq \<longrightarrow> (\<forall>r\<in>set seq. set res \<inter> set (fst r) = {}))"
proof -
  from get_mergeseq_shape [OF assms(1,2)] obtain ordered where
    seq: "get_mergeseq argsort t = Inr (map (\<lambda>p. (child_where_parent t p, p)) (butlast ordered))"
    and perm: "mset ordered = mset (merge_candidates t)"
    and srt: "sorted (map (merge_height t) ordered)"
    by blast
  let ?seq = "map (\<lambda>p. (child_where_parent t p, p)) (butlast ordered)"
  let ?res = "fold (merge_one dt) ?seq labels"
  from srt have "sorted (map (merge_height t) (butlast ordered))"
    by (simp add: map_butlast sorted_butlast)
  moreover have "\<forall>p\<in>set (butlast ordered). \<forall>q\<in>set (butlast ordered).
      q \<in> set (child_where_parent t p) \<longrightarrow> merge_height t q < merge_height t p"
  proof (intro ballI impI)
    fix p q assume qb: "q \<in> set (butlast ordered)" and qp: "q \<in> set (child_where_parent t p)"
    from qb have "q \<in> set ordered" by (rule in_set_butlastD)
    with perm have "q \<in> set (merge_candidates t)" by (metis set_mset_mset)
    then have "q \<in> set (map parent t)" by (rule merge_candidates_parent)
    with qp show "merge_height t q < merge_height t p"
      by (rule child_lower_height [OF assms(2,3,4)])
  qed
  ultimately have ord: "ordered_records ?seq" by (rule ordered_records_sorted)
  have "holds_parents dt ?seq \<longrightarrow> (\<forall>r\<in>set ?seq. set ?res \<inter> set (fst r) = {})"
  proof (intro impI ballI)
    fix r assume "holds_parents dt ?seq" "r \<in> set ?seq"
    with ord show "set ?res \<inter> set (fst r) = {}"
      by (intro fold_merge_one_collapsed)
  qed
  moreover have "do_merges (Ndarray dt labels) ?seq (int (length ?seq))
      = (Inr ?res, Ndarray dt ?res)"
    by (simp add: do_merges_def Let_def merges_loop_fold)
  ultimately show ?thesis using seq by blast
qed

lemma inverted_candidates: "merge_candidates inverted_tree = [''P'', ''Q'', ''root'']"
  by (simp add: merge_candidates_def setdiff1d_def inverted_tree_def mk_row_def)

lemma inverted_heights:
  "merge_heights inverted_tree [''P'', ''Q'', ''root'']
     = [2, 1, 4728779608739021 / 2251799813685248]"
  by (simp add: merge_heights_def np_max_def inverted_tree_def mk_row_def add_tenth_2)

lemma inverted_mergeseq:
  "get_mergeseq argsort_stable inverted_tree =
     Inr [([''c'', ''P''], ''Q''), ([''a'', ''b''], ''P'')]"
proof -
  have "argsort_stable [2, 1, 4728779608739021 / 2251799813685248] = [1, 0, 2]"
    by (simp add: argsort_stable_def upt_rec numeral_nat)
  then show ?thesis
    unfolding get_mergeseq_def merge_candidates_def [symmetric] inverted_candidates Let_def
      inverted_heights
    by (simp add: child_where_parent_def inverted_tree_def mk_row_def)
qed

lemma long_name_candidates:
  "merge_candidates long_name_tree = [''PQ'', ''R'', ''X'', ''root'']"
  by (simp add: merge_candidates_def setdiff1d_def long_name_tree_def mk_row_def)

lemma long_name_heights:
  "merge_heights long_name_tree [''PQ'', ''R'', ''X'', ''root'']
     = [2, 3, 1, 6980579422424269 / 2251799813685248]"
  by (simp add: merge_heights_def np_max_def long_name_tree_def mk_row_def add_tenth_3)

lemma long_name_mergeseq:
  "get_mergeseq argsort_stable long_name_tree =
     Inr [([''P''], ''X''), ([''a'', ''b''], ''PQ''), ([''X'', ''PQ''], ''R'')]"
proof -
  have "argsort_stable [2, 3, 1, 6980579422424269 / 2251799813685248] = [2, 0, 1, 3]"
    by (simp add: argsort_stable_def upt_rec numeral_nat)
  then show ?thesis
    unfolding get_mergeseq_def merge_candidates_def [symmetric] long_name_candidates Let_def
      long_name_heights
    by (simp add: child_where_parent_def long_name_tree_def mk_row_def)
qed

lemma long_name_hyps:
  "distinct (map child long_name_tree)" "heights_increase long_name_tree"
  "sentinel_above long_name_tree"
proof -
  show "distinct (map child long_name_tree)"
    by (simp add: long_name_tree_def mk_row_def)
  show "heights_increase long_name_tree"
    by (simp add: heights_increase_def long_name_tree_def mk_row_def)
  show "sentinel_above long_name_tree"
    by (rule sentinel_above_bounded) (simp add: long_name_tree_def mk_row_def)
qed

lemma huge_forest_candidates: "merge_candidates huge_forest = [''root'', ''z1'', ''z2'']"
  by (simp add: merge_candidates_def setdiff1d_def huge_forest_def mk_row_def)

lemma huge_forest_heights:
  "merge_heights huge_forest [''root'', ''z1'', ''z2''] = [10 ^ 17, 10 ^ 17, 10 ^ 17]"
  by (simp add: merge_heights_def np_max_def huge_forest_def mk_row_def add_tenth_1e17_numeral)

lemma huge_forest_mergeseq:
  "get_mergeseq argsort_stable huge_forest =
     Inr [([''z1'', ''z2''], ''root''), ([''a''], ''z1'')]"
proof -
  have "argsort_stable [10 ^ 17, 10 ^ 17, 10 ^ 17] = [0, 1, 2]"
    by (simp add: argsort_stable_def upt_rec numeral_nat)
  then show ?thesis
    unfolding get_mergeseq_def merge_candidates_def [symmetric] huge_forest_candidates Let_def
      huge_forest_heights
    by (simp add: child_where_parent_def huge_forest_def mk_row_def)
qed

lemma huge_forest_hyps:
  "distinct (map child huge_forest)" "heights_increase huge_forest"
  "\<not> sentinel_above huge_forest"
proof -
  show "distinct (map child huge_forest)"
    by (simp add: huge_forest_def mk_row_def)
  show "heights_increase huge_forest"
    by (simp add: heights_increase_def huge_forest_def mk_row_def)
  have "sentinel_height huge_forest = 10 ^ 17"
    by (simp add: sentinel_height_def np_max_def huge_forest_def mk_row_def add_tenth_1e17_numeral)
  then show "\<not> sentinel_above huge_forest"
    by (simp add: sentinel_above_def huge_forest_def mk_row_def)
qed

text \<open>
  Claim C3 as stated fails in three ways. On \<open>inverted_tree\<close>, \<open>Q\<close> (height 1) is merged
  before its child \<open>P\<close> (height 2), so the label \<open>P\<close> is left, and \<open>P\<close> is a child in the
  first record; the heights are pairwise different, so the sort cannot matter. On
  \<open>long_name_tree\<close>, whose heights grow towards the root, the array
  \<^verbatim>\<open>np.array(['P', 'a', 'b'])\<close> has the dtype \<open><U1\<close>: the parent \<open>PQ\<close> is stored as \<open>P\<close>,
  which is a child in the first record. On \<open>huge_forest\<close> the float64 sum \<open>10^17 + 0.1\<close>
  is \<open>10^17\<close>, so \<open>root\<close> ties with its children and is merged first; the label \<open>z1\<close>, a
  child in the first record, is left.
\<close>

theorem do_merges_not_collapsed_counterexample:
  "(get_mergeseq argsort_stable inverted_tree =
      Inr [([''c'', ''P''], ''Q''), ([''a'', ''b''], ''P'')] \<and>
    do_merges (Ndarray ObjectDtype [''a'', ''b'', ''c''])
      [([''c'', ''P''], ''Q''), ([''a'', ''b''], ''P'')] 2
      = (Inr [''P'', ''P'', ''Q''], Ndarray ObjectDtype [''P'', ''P'', ''Q'']) \<and>
    ''P'' \<in> set [''P'', ''P'', ''Q''] \<inter> set (fst ([''c'', ''P''], ''Q''))) \<and>
   (distinct (map child long_name_tree) \<and> heights_increase long_name_tree \<and>
    sentinel_above long_name_tree \<and>
    get_mergeseq argsort_stable long_name_tree =
      Inr [([''P''], ''X''), ([''a'', ''b''], ''PQ''), ([''X'', ''PQ''], ''R'')] \<and>
    do_merges (Ndarray (UnicodeDtype 1) [''P'', ''a'', ''b''])
      [([''P''], ''X''), ([''a'', ''b''], ''PQ''), ([''X'', ''PQ''], ''R'')] 3
      = (Inr [''R'', ''P'', ''P''], Ndarray (UnicodeDtype 1) [''R'', ''P'', ''P'']) \<and>
    ''P'' \<in> set [''R'', ''P'', ''P''] \<inter> set (fst ([''P''], ''X''))) \<and>
   (distinct (map child huge_forest) \<and> heights_increase huge_forest \<and>
    get_mergeseq argsort_stable huge_forest =
      Inr [([''z1'', ''z2''], ''root''), ([''a''], ''z1'')] \<and>
    do_merges (Ndarray ObjectDtype [''a'', ''b''])
      [([''z1'', ''z2''], ''root''), ([''a''], ''z1'')] 2
      = (Inr [''z1'', ''b''], Ndarray ObjectDtype [''z1'', ''b'']) \<and>
    ''z1'' \<in> set [''z1'', ''b''] \<inter> set (fst ([''z1'', ''z2''], ''root'')))"
proof -
  have 1: "do_merges (Ndarray ObjectDtype [''a'', ''b'', ''c''])
     [([''c'', ''P''], ''Q''), ([''a'', ''b''], ''P'')] 2
     = (Inr [''P'', ''P'', ''Q''], Ndarray ObjectDtype [''P'', ''P'', ''Q''])"
    by (simp add: do_merges_def Let_def merges_loop_fold merge_one_map)
  have 2: "do_merges (Ndarray (UnicodeDtype 1) [''P'', ''a'', ''b''])
      [([''P''], ''X''), ([''a'', ''b''], ''PQ''), ([''X'', ''PQ''], ''R'')] 3
      = (Inr [''R'', ''P'', ''P''], Ndarray (UnicodeDtype 1) [''R'', ''P'', ''P''])"
    by (simp add: do_merges_def Let_def merges_loop_fold merge_one_map)
  have 3: "do_merges (Ndarray ObjectDtype [''a'', ''b''])
      [([''z1'', ''z2''], ''root''), ([''a''], ''z1'')] 2
      = (Inr [''z1'', ''b''], Ndarray ObjectDtype [''z1'', ''b''])"
    by (simp add: do_merges_def Let_def merges_loop_fold merge_one_map)
  from 1 2 3 inverted_mergeseq long_name_mergeseq long_name_hyps huge_forest_mergeseq
    huge_forest_hyps(1,2)
  show ?thesis by simp
qed

lemma example_candidates: "merge_candidates example_tree = [''A'', ''R'', ''root'']"
  by (simp add: merge_candidates_def setdiff1d_def example_tree_def mk_row_def)

lemma example_heights:
  "merge_heights example_tree [''A'', ''R'', ''root'']
     = [1, 2, 4728779608739021 / 2251799813685248]"
  by (simp add: merge_heights_def np_max_def example_tree_def mk_row_def add_tenth_2)

lemma example_mergeseq:
  "get_mergeseq argsort_stable example_tree =
     Inr [([''a1'', ''a2''], ''A''), ([''B'', ''A''], ''R'')]"
proof -
  have "argsort_stable [1, 2, 4728779608739021 / 2251799813685248] = [0, 1, 2]"
    by (simp add: argsort_stable_def upt_rec numeral_nat)
  then show ?thesis
    unfolding get_mergeseq_def merge_candidates_def [symmetric] example_candidates Let_def
      example_heights
    by (simp add: child_where_parent_def example_tree_def mk_row_def)
qed

lemma distinct_child_example: "distinct (map child example_tree)"
  by (simp add: example_tree_def mk_row_def)

lemma heights_increase_example: "heights_increase example_tree"
  by (simp add: heights_increase_def example_tree_def mk_row_def)

lemma sentinel_above_example: "sentinel_above example_tree"
  by (rule sentinel_above_bounded) (simp add: example_tree_def mk_row_def)

text \<open>
  Claim C3 on the worked example with the array \<^verbatim>\<open>np.array(['a1', 'a2', 'B'])\<close>, whose
  dtype is \<open><U2\<close>: after both merges every label is \<open>R\<close>.
\<close>

theorem do_merges_fully_collapsed_witness:
  "argsort_spec argsort_stable \<and> distinct (map child example_tree) \<and>
   heights_increase example_tree \<and> sentinel_above example_tree \<and>
   get_mergeseq argsort_stable example_tree =
     Inr [([''a1'', ''a2''], ''A''), ([''B'', ''A''], ''R'')] \<and>
   holds_parents (UnicodeDtype 2) [([''a1'', ''a2''], ''A''), ([''B'', ''A''], ''R'')] \<and>
   do_merges (Ndarray (UnicodeDtype 2) [''a1'', ''a2'', ''B''])
     [([''a1'', ''a2''], ''A''), ([''B'', ''A''], ''R'')] 2
     = (Inr [''R'', ''R'', ''R''], Ndarray (UnicodeDtype 2) [''R'', ''R'', ''R'']) \<and>
   set [''R'', ''R'', ''R''] \<inter> set [''a1'', ''a2''] = {} \<and>
   set [''R'', ''R'', ''R''] \<inter> set [''B'', ''A''] = {}"
proof -
  have m: "do_merges (Ndarray (UnicodeDtype 2) [''a1'', ''a2'', ''B''])
     [([''a1'', ''a2''], ''A''), ([''B'', ''A''], ''R'')] 2
     = (Inr [''R'', ''R'', ''R''], Ndarray (UnicodeDtype 2) [''R'', ''R'', ''R''])"
    by (simp add: do_merges_def Let_def merges_loop_fold merge_one_map)
  have h: "holds_parents (UnicodeDtype 2) [([''a1'', ''a2''], ''A''), ([''B'', ''A''], ''R'')]"
    by (simp add: holds_parents_def)
  from do_merges_fully_collapsed [OF argsort_stable_spec distinct_child_example
      heights_increase_example sentinel_above_example,
      of "UnicodeDtype 2" "[''a1'', ''a2'', ''B'']"]
  show ?thesis
    using argsort_stable_spec distinct_child_example heights_increase_example
      sentinel_above_example example_mergeseq m h by simp
qed

















section \<open>Facts about simplify\_tree\<close>

lemma simplify_loop_frame:
  assumes "n \<le> a" "a < length h" "simplify_loop h a sk = (res, h')"
  shows "(\<forall>i<n. h' ! i = h ! i) \<and> length h \<le> length h' \<and>
         (\<forall>a'. res = Inr a' \<longrightarrow> n \<le> a' \<and> a' < length h')"
  using assms
proof (induction sk arbitrary: h a)
  case Nil
  then show ?case by auto
next
  case (Cons node rest)
  show ?case
  proof (cases "simplify_step (h ! a) node")
    case (Inl e)
    with Cons.prems show ?thesis by auto
  next
    case (Inr opt)
    show ?thesis
    proof (cases opt)
      case None
      with Inr Cons.prems have "simplify_loop h a rest = (res, h')" by simp
      from Cons.IH [OF Cons.prems(1,2) this] show ?thesis .
    next
      case (Some pr)
      obtain st' df where pr: "pr = (st', df)" by (cases pr)
      let ?h1 = "h[a := st'] @ [df]"
      from Inr Some pr Cons.prems have run: "simplify_loop ?h1 (length h) rest = (res, h')"
        by simp
      from Cons.prems have "n \<le> length h" "length h < length ?h1" by simp_all
      from Cons.IH [OF this run]
      have *: "(\<forall>i<n. h' ! i = ?h1 ! i)" "length ?h1 \<le> length h'"
        "(\<forall>a'. res = Inr a' \<longrightarrow> n \<le> a' \<and> a' < length h')" by auto
      have "\<forall>i<n. ?h1 ! i = h ! i"
        using Cons.prems(1,2) by (auto simp: nth_append)
      with * show ?thesis by auto
    qed
  qed
qed

text \<open>
  Claim C7, as the code has it: \<open>simplify_tree\<close> leaves the object it is given, and every
  other object that existed before the call, as it was; the tree it returns is an object
  allocated during the call. Rewiring and removal are applied to a deep copy.
\<close>

theorem simplify_tree_leaves_argument:
  assumes "pruned_subtree < length h"
    and "simplify_tree vc_index h pruned_subtree skip_nodes = (res, h')"
  shows "h' ! pruned_subtree = h ! pruned_subtree \<and> take (length h) h' = h \<and>
         (\<forall>a sk. res = Inr (a, sk) \<longrightarrow> length h \<le> a \<and> a < length h' \<and> a \<noteq> pruned_subtree)"
proof -
  let ?h0 = "h @ [h ! pruned_subtree]"
  let ?sk = "case skip_nodes of None \<Rightarrow> default_skip_nodes vc_index (h ! pruned_subtree)
                | Some s \<Rightarrow> s"
  obtain r1 h1 where loop: "simplify_loop ?h0 (length h) ?sk = (r1, h1)"
    by (cases "simplify_loop ?h0 (length h) ?sk")
  have "length h \<le> length h" "length h < length ?h0" by simp_all
  from simplify_loop_frame [OF this loop]
  have fr: "\<forall>i<length h. h1 ! i = ?h0 ! i" "length ?h0 \<le> length h1"
    "\<forall>a'. r1 = Inr a' \<longrightarrow> length h \<le> a' \<and> a' < length h1" by auto
  from assms(2) loop have h': "h' = h1"
    by (auto simp: simplify_tree_def Let_def split: sum.splits)
  from assms(2) loop have res: "\<forall>a sk. res = Inr (a, sk) \<longrightarrow> r1 = Inr a"
    by (auto simp: simplify_tree_def Let_def split: sum.splits)
  from fr(1) have same: "\<forall>i<length h. h1 ! i = h ! i" by (simp add: nth_append)
  with fr(2) have "take (length h) h1 = h"
    by (intro nth_equalityI) auto
  with same assms(1) fr(3) res h' show ?thesis by auto
qed


lemma passthrough_skip:
  "default_skip_nodes vc_index_first passthrough_tree = [''P'', ''root'']"
  by (simp add: default_skip_nodes_def vc_index_first_def passthrough_tree_def mk_row_def)

lemma passthrough_simplified:
  "simplify_tree vc_index_first [passthrough_tree] 0 None =
     (Inr (2, [''P'', ''root'']),
      [passthrough_tree,
       [mk_row ''a'' ''R'' True 0 0, mk_row ''b'' ''R'' True 1 0,
        mk_row ''P'' ''R'' False 0 1, mk_row ''R'' ''root'' False (1/2) 2],
       [mk_row ''a'' ''R'' True 0 0, mk_row ''b'' ''R'' True 1 0,
        mk_row ''R'' ''root'' False (1/2) 2]])"
  unfolding simplify_tree_def Let_def option.case passthrough_skip nth_Cons_0
  by (simp add: simplify_step_def parent_where_child_def np_unique_def set_parent_where_def
      drop_node_def passthrough_tree_def mk_row_def)

text \<open>Claim C7 on \<open>passthrough_tree\<close>: the object passed in is unchanged and the result is a new object.\<close>

theorem simplify_tree_leaves_argument_witness:
  "(0::nat) < length [passthrough_tree] \<and>
   fst (simplify_tree vc_index_first [passthrough_tree] 0 None) = Inr (2, [''P'', ''root'']) \<and>
   snd (simplify_tree vc_index_first [passthrough_tree] 0 None) ! 0 = passthrough_tree \<and>
   length [passthrough_tree] \<le> (2::nat)"
proof -
  have l: "(0::nat) < length [passthrough_tree]" by simp
  from simplify_tree_leaves_argument [OF l passthrough_simplified]
  show ?thesis by (simp add: passthrough_simplified)
qed

text \<open>
  Claim C7 as stated fails: after simplifying \<open>passthrough_tree\<close> the object passed in
  still holds the row of \<open>P\<close>; the returned object (reference 2) is another one, without it.
\<close>

theorem simplify_tree_not_in_place_counterexample:
  "fst (simplify_tree vc_index_first [passthrough_tree] 0 None) = Inr (2, [''P'', ''root'']) \<and>
   snd (simplify_tree vc_index_first [passthrough_tree] 0 None) ! 0 = passthrough_tree \<and>
   ''P'' \<in> set (map child (snd (simplify_tree vc_index_first [passthrough_tree] 0 None) ! 0)) \<and>
   ''P'' \<notin> set (map child (snd (simplify_tree vc_index_first [passthrough_tree] 0 None) ! 2))"
  by (simp add: passthrough_simplified) (simp add: passthrough_tree_def mk_row_def)

lemma filter_child_single:
  assumes "distinct (map child st)" "r \<in> set st"
  shows "filter (\<lambda>x. child x = child r) st = [r]"
proof (rule filter_child_cases [OF assms(1), of "child r"])
  assume "child r \<notin> set (map child st)"
  with assms(2) show ?thesis by simp
next
  fix r' assume r': "r' \<in> set st" "child r' = child r" "filter (\<lambda>x. child x = child r) st = [r']"
  from distinct_child_parent_unique [OF assms(1) r'(1) assms(2) r'(2)] r'(3)
  show ?thesis by simp
qed

lemma simplify_step_no_row:
  "N \<notin> set (map child st) \<Longrightarrow> simplify_step st N = Inr None"
proof -
  assume "N \<notin> set (map child st)"
  then have "filter (\<lambda>r. child r = N) st = []" by (auto simp: filter_empty_conv)
  then show ?thesis
    by (simp add: simplify_step_def parent_where_child_def np_unique_def)
qed

lemma rewire_simps [simp]:
  "child (rewire N q x) = child x" "isleaf (rewire N q x) = isleaf x"
  "parent (rewire N q x) = (if parent x = N then q else parent x)"
  by (simp_all add: rewire_def)

lemma simplify_step_row:
  assumes "distinct (map child st)" "r \<in> set st" "parent r \<noteq> child r"
  shows "simplify_step st (child r) =
           Inr (Some (map (rewire (child r) (parent r)) st,
                      map (rewire (child r) (parent r)) (filter (\<lambda>x. child x \<noteq> child r) st)))"
proof -
  let ?N = "child r" and ?q = "parent r"
  have pw: "parent_where_child st ?N = [?q]"
    by (simp add: parent_where_child_def filter_child_single [OF assms(1,2)])
  have rw: "set_parent_where st ?N [?q] = Inr (map (rewire ?N ?q) st)"
    by (simp add: set_parent_where_def rewire_def [abs_def])
  have "drop_node (map (rewire ?N ?q) st) ?N =
          map (rewire ?N ?q) (filter (\<lambda>x. child x \<noteq> ?N) st)"
    using assms(3) by (simp add: drop_node_def filter_map comp_def)
  then show ?thesis
    by (simp add: simplify_step_def pw np_unique_def rw Let_def)
qed


lemma count_parent_rewire:
  assumes "q \<noteq> N"
  shows "count_list (map parent (map (rewire N q) xs)) p =
           (if p = N then 0
            else if p = q then count_list (map parent xs) q + count_list (map parent xs) N
            else count_list (map parent xs) p)"
  using assms by (induction xs) auto

lemma count_parent_remove:
  assumes "distinct (map child st)" "r \<in> set st"
  shows "count_list (map parent (filter (\<lambda>x. child x \<noteq> child r) st)) p
           + (if parent r = p then 1 else 0) = count_list (map parent st) p"
  using assms
proof (induction st)
  case Nil
  then show ?case by simp
next
  case (Cons x st)
  show ?case
  proof (cases "x = r")
    case True
    with Cons.prems have "\<forall>z\<in>set st. child z \<noteq> child r" by (auto simp: image_iff)
    then have "filter (\<lambda>x. child x \<noteq> child r) st = st" by (simp add: filter_id_conv)
    with True show ?thesis by simp
  next
    case False
    with Cons.prems have r: "r \<in> set st" and "child x \<noteq> child r" by (auto simp: image_iff)
    with Cons show ?thesis by simp
  qed
qed

lemma without_child: "map child (without st r) = filter (\<lambda>c. c \<noteq> child r) (map child st)"
  by (simp add: without_def filter_map comp_def)

lemma without_count:
  assumes "distinct (map child st)" "r \<in> set st" "parent r \<noteq> child r"
    and "count_list (map parent st) (child r) = 1"
  shows "count_list (map parent (without st r)) p =
           (if p = child r then 0 else count_list (map parent st) p)"
proof -
  let ?F = "filter (\<lambda>x. child x \<noteq> child r) st"
  note rem = count_parent_remove [OF assms(1,2)]
  from rem [of "child r"] assms(3,4) have fN: "count_list (map parent ?F) (child r) = 1" by simp
  from rem [of "parent r"] have fq:
    "count_list (map parent ?F) (parent r) + 1 = count_list (map parent st) (parent r)" by simp
  have fo: "p \<noteq> parent r \<Longrightarrow> count_list (map parent ?F) p = count_list (map parent st) p"
    using rem [of p] by simp
  show ?thesis
    unfolding without_def count_parent_rewire [OF assms(3)]
    using fN fq fo by auto
qed

lemma without_acyclic:
  assumes "acyclic (up_rel st)" "r \<in> set st"
  shows "acyclic (up_rel (without st r))"
proof -
  have "up_rel (without st r) \<subseteq> (up_rel st)\<^sup>+"
  proof
    fix e assume "e \<in> up_rel (without st r)"
    then obtain x where x: "x \<in> set st" "e = (child x, if parent x = child r then parent r else parent x)"
      by (auto simp: up_rel_def without_def)
    show "e \<in> (up_rel st)\<^sup>+"
    proof (cases "parent x = child r")
      case True
      with x(1) have "(child x, child r) \<in> up_rel st" by (force simp: up_rel_def)
      moreover from assms(2) have "(child r, parent r) \<in> up_rel st" by (force simp: up_rel_def)
      ultimately show ?thesis using x(2) True by (auto intro: trancl_into_trancl)
    next
      case False
      with x show ?thesis by (force simp: up_rel_def)
    qed
  qed
  moreover from assms(1) have "acyclic ((up_rel st)\<^sup>+)" by (simp add: acyclic_def)
  ultimately show ?thesis by (meson acyclic_subset)
qed

lemma acyclic_no_self_parent:
  assumes "acyclic (up_rel st)" "r \<in> set st"
  shows "parent r \<noteq> child r"
proof
  assume "parent r = child r"
  with assms(2) have "(child r, child r) \<in> up_rel st" by (force simp: up_rel_def)
  with assms(1) show False by (auto simp: acyclic_def)
qed

lemma count_pos_parent: "0 < count_list (map parent st) p \<longleftrightarrow> p \<in> set (map parent st)"
  by (metis count_list_0_iff gr0I gr_implies_not0)

lemma without_leaves:
  assumes "distinct (map child st)" "r \<in> set st" "leaf_flags_ok st"
    and "count_list (map parent st) (child r) = 1"
  shows "map child (filter isleaf (without st r)) = map child (filter isleaf st)"
proof -
  from assms(4) have "child r \<in> set (map parent st)"
    using count_pos_parent [of st "child r"] by simp
  with assms(2,3) have nl: "\<not> isleaf r" by (auto simp: leaf_flags_ok_def)
  have "\<forall>x\<in>set st. isleaf x \<longrightarrow> child x \<noteq> child r"
  proof (intro ballI impI)
    fix x assume x: "x \<in> set st" "isleaf x"
    show "child x \<noteq> child r"
    proof
      assume "child x = child r"
      from distinct_child_parent_unique [OF assms(1) x(1) assms(2) this] x(2) nl
      show False by simp
    qed
  qed
  then have "filter (\<lambda>x. isleaf x \<and> child x \<noteq> child r) st = filter isleaf st"
    by (intro filter_cong) auto
  then show ?thesis
    by (simp add: without_def filter_map comp_def conj_commute)
qed

lemma without_leaf_flags:
  assumes "distinct (map child st)" "r \<in> set st" "parent r \<noteq> child r" "leaf_flags_ok st"
    and "count_list (map parent st) (child r) = 1"
  shows "leaf_flags_ok (without st r)"
  unfolding leaf_flags_ok_def
proof (intro ballI impI)
  fix x' assume x': "x' \<in> set (without st r)" "isleaf x'"
  then obtain x where x: "x \<in> set st" "isleaf x" "child x' = child x"
    by (auto simp: without_def)
  with assms(4) have "child x \<notin> set (map parent st)" by (simp add: leaf_flags_ok_def)
  then have "count_list (map parent st) (child x) = 0" by (simp add: count_list_0_iff)
  with without_count [OF assms(1,2,3,5), of "child x"]
  have "count_list (map parent (without st r)) (child x) = 0" by (simp split: if_splits)
  with x(3) show "child x' \<notin> set (map parent (without st r))"
    by (simp add: count_list_0_iff)
qed

lemma simplified_rows_props:
  assumes "distinct (map child st)" "acyclic (up_rel st)" "leaf_flags_ok st" "distinct rest"
    and "\<forall>p\<in>set rest. count_list (map parent st) p = 1"
  shows "\<exists>fin. simplified_rows st rest = Inr fin \<and>
           (\<forall>p. count_list (map parent fin) p =
              (if p \<in> set rest \<and> p \<in> set (map child st) then 0
               else count_list (map parent st) p)) \<and>
           set (map child fin) \<subseteq> set (map child st) \<and>
           map child (filter isleaf fin) = map child (filter isleaf st)"
  using assms
proof (induction rest arbitrary: st)
  case Nil
  then show ?case by simp
next
  case (Cons N rest)
  from Cons.prems(4) have Nrest: "N \<notin> set rest" and drest: "distinct rest" by simp_all
  show ?case
  proof (cases "N \<in> set (map child st)")
    case False
    then have step: "simplified_rows st (N # rest) = simplified_rows st rest"
      by (simp add: simplify_step_no_row)
    from Cons.prems(5) have "\<forall>p\<in>set rest. count_list (map parent st) p = 1" by simp
    from Cons.IH [OF Cons.prems(1,2,3) drest this] obtain fin where
      fin: "simplified_rows st rest = Inr fin"
      "\<forall>p. count_list (map parent fin) p =
              (if p \<in> set rest \<and> p \<in> set (map child st) then 0
               else count_list (map parent st) p)"
      "set (map child fin) \<subseteq> set (map child st)"
      "map child (filter isleaf fin) = map child (filter isleaf st)"
      by blast
    have "\<forall>p. count_list (map parent fin) p =
              (if p \<in> set (N # rest) \<and> p \<in> set (map child st) then 0
               else count_list (map parent st) p)"
      using fin(2) False by auto
    with fin(1,3,4) step show ?thesis by simp
  next
    case True
    then obtain r where r: "r \<in> set st" "child r = N" by auto
    from acyclic_no_self_parent [OF Cons.prems(2) r(1)] have qN: "parent r \<noteq> child r" .
    from Cons.prems(5) r(2) have cN: "count_list (map parent st) (child r) = 1" by simp
    let ?w = "without st r"
    from simplify_step_row [OF Cons.prems(1) r(1) qN] r(2)
    have step: "simplified_rows st (N # rest) = simplified_rows ?w rest"
      by (simp add: without_def)
    note cw = without_count [OF Cons.prems(1) r(1) qN cN]
    have 1: "distinct (map child ?w)"
      using Cons.prems(1) by (simp add: without_child)
    have 2: "acyclic (up_rel ?w)" by (rule without_acyclic [OF Cons.prems(2) r(1)])
    have 3: "leaf_flags_ok ?w"
      by (rule without_leaf_flags [OF Cons.prems(1) r(1) qN Cons.prems(3) cN])
    have 5: "\<forall>p\<in>set rest. count_list (map parent ?w) p = 1"
      using Cons.prems(5) Nrest r(2) by (auto simp: cw)
    from Cons.IH [OF 1 2 3 drest 5] obtain fin where
      fin: "simplified_rows ?w rest = Inr fin"
      "\<forall>p. count_list (map parent fin) p =
              (if p \<in> set rest \<and> p \<in> set (map child ?w) then 0
               else count_list (map parent ?w) p)"
      "set (map child fin) \<subseteq> set (map child ?w)"
      "map child (filter isleaf fin) = map child (filter isleaf ?w)"
      by blast
    have chw: "set (map child ?w) = set (map child st) - {N}"
      using r(2) by (auto simp: without_child)
    have "\<forall>p. count_list (map parent fin) p =
              (if p \<in> set (N # rest) \<and> p \<in> set (map child st) then 0
               else count_list (map parent st) p)"
    proof
      fix p
      show "count_list (map parent fin) p =
              (if p \<in> set (N # rest) \<and> p \<in> set (map child st) then 0
               else count_list (map parent st) p)"
      proof (cases "p = N")
        case True
        with fin(2) Nrest have "count_list (map parent fin) p = count_list (map parent ?w) p"
          by simp
        with True r show ?thesis using \<open>N \<in> set (map child st)\<close> by (simp add: cw)
      next
        case False
        with r(2) have "count_list (map parent ?w) p = count_list (map parent st) p"
          by (simp add: cw)
        with fin(2) False chw show ?thesis by auto
      qed
    qed
    moreover from fin(3) chw have "set (map child fin) \<subseteq> set (map child st)" by auto
    moreover from fin(4) without_leaves [OF Cons.prems(1) r(1) Cons.prems(3) cN]
    have "map child (filter isleaf fin) = map child (filter isleaf st)" by simp
    ultimately show ?thesis using fin(1) step by simp
  qed
qed

lemma simplified_rows_noop:
  "\<forall>N\<in>set sk. N \<notin> set (map child st) \<Longrightarrow> simplified_rows st sk = Inr st"
  by (induction sk) (simp_all add: simplify_step_no_row)

lemma simplify_loop_rows:
  assumes "a < length h" "simplified_rows (h ! a) sk = Inr fin"
  shows "\<exists>a' h'. simplify_loop h a sk = (Inr a', h') \<and> a' < length h' \<and> h' ! a' = fin"
  using assms
proof (induction sk arbitrary: h a)
  case Nil
  then show ?case by simp
next
  case (Cons node rest)
  show ?case
  proof (cases "simplify_step (h ! a) node")
    case (Inl e)
    with Cons.prems(2) show ?thesis by simp
  next
    case (Inr opt)
    show ?thesis
    proof (cases opt)
      case None
      with Inr Cons.prems(2) have "simplified_rows (h ! a) rest = Inr fin" by simp
      from Cons.IH [OF Cons.prems(1) this] Inr None show ?thesis by simp
    next
      case (Some pr)
      obtain st' df where pr: "pr = (st', df)" by (cases pr)
      let ?h1 = "h[a := st'] @ [df]"
      have l: "length h < length ?h1" by simp
      have "?h1 ! length h = df" by (simp add: nth_append)
      with Inr Some pr Cons.prems(2) have "simplified_rows (?h1 ! length h) rest = Inr fin"
        by simp
      from Cons.IH [OF l this] Inr Some pr show ?thesis by simp
    qed
  qed
qed

lemma simplify_tree_rows:
  assumes "a < length h" "simplified_rows (h ! a) (default_skip_nodes vc (h ! a)) = Inr fin"
  shows "\<exists>a1 h1. simplify_tree vc h a None = (Inr (a1, default_skip_nodes vc (h ! a)), h1) \<and>
           a1 < length h1 \<and> h1 ! a1 = fin"
proof -
  let ?h0 = "h @ [h ! a]"
  let ?sk = "default_skip_nodes vc (h ! a)"
  have "length h < length ?h0" by simp
  moreover from assms(2) have "simplified_rows (?h0 ! length h) ?sk = Inr fin"
    by (simp add: nth_append)
  ultimately obtain a1 h1 where "simplify_loop ?h0 (length h) ?sk = (Inr a1, h1)" "a1 < length h1"
    "h1 ! a1 = fin"
    using simplify_loop_rows by blast
  then show ?thesis by (simp add: simplify_tree_def Let_def)
qed

lemma default_skip_nodes_props:
  assumes "vc_index_spec vc"
  shows "distinct (default_skip_nodes vc t)"
    and "p \<in> set (default_skip_nodes vc t) \<longleftrightarrow> count_list (map parent t) p = 1"
proof -
  from assms show "distinct (default_skip_nodes vc t)"
    by (simp add: default_skip_nodes_def vc_index_spec_def)
  have "count_list (map parent t) p = 1 \<Longrightarrow> p \<in> set (map parent t)"
    using count_pos_parent [of t p] by simp
  with assms show "p \<in> set (default_skip_nodes vc t) \<longleftrightarrow> count_list (map parent t) p = 1"
    by (auto simp: default_skip_nodes_def vc_index_spec_def)
qed

text \<open>
  Claim C6: for a table without duplicate \<open>child\<close> entries, with acyclic edges and with no
  leaf-flagged row that is a parent, \<open>simplify_tree\<close> returns a tree, a second call on that
  tree returns a tree with the very same table (nothing more is removed), and the names of
  the leaf rows of the simplified tree are those of the given tree, in the same order.
\<close>

theorem simplify_tree_idempotent:
  assumes "vc_index_spec vc_index" "a < length h"
    and "distinct (map child (h ! a))" "acyclic (up_rel (h ! a))" "leaf_flags_ok (h ! a)"
  shows "\<exists>a1 sk1 h1 a2 sk2 h2.
           simplify_tree vc_index h a None = (Inr (a1, sk1), h1) \<and>
           simplify_tree vc_index h1 a1 None = (Inr (a2, sk2), h2) \<and>
           h2 ! a2 = h1 ! a1 \<and>
           map child (filter isleaf (h1 ! a1)) = map child (filter isleaf (h ! a))"
proof -
  let ?T = "h ! a"
  let ?sk1 = "default_skip_nodes vc_index ?T"
  note sk = default_skip_nodes_props [OF assms(1)]
  have "\<forall>p\<in>set ?sk1. count_list (map parent ?T) p = 1" by (simp add: sk(2))
  from simplified_rows_props [OF assms(3,4,5) sk(1) this] obtain fin where
    fin: "simplified_rows ?T ?sk1 = Inr fin"
    and cnt: "\<forall>p. count_list (map parent fin) p =
              (if p \<in> set ?sk1 \<and> p \<in> set (map child ?T) then 0
               else count_list (map parent ?T) p)"
    and sub: "set (map child fin) \<subseteq> set (map child ?T)"
    and lv: "map child (filter isleaf fin) = map child (filter isleaf ?T)"
    by blast
  from simplify_tree_rows [OF assms(2) fin] obtain a1 h1 where
    run1: "simplify_tree vc_index h a None = (Inr (a1, ?sk1), h1)"
    and a1: "a1 < length h1" and h1: "h1 ! a1 = fin" by blast
  let ?sk2 = "default_skip_nodes vc_index fin"
  have "\<forall>N\<in>set ?sk2. N \<notin> set (map child fin)"
  proof
    fix N assume "N \<in> set ?sk2"
    then have c1: "count_list (map parent fin) N = 1" by (simp add: sk(2))
    with cnt have "\<not> (N \<in> set ?sk1 \<and> N \<in> set (map child ?T))"
      and "count_list (map parent ?T) N = 1"
      by (auto split: if_splits)
    then have "N \<notin> set (map child ?T)" by (simp add: sk(2))
    with sub show "N \<notin> set (map child fin)" by blast
  qed
  then have "simplified_rows fin ?sk2 = Inr fin" by (rule simplified_rows_noop)
  with h1 have "simplified_rows (h1 ! a1) (default_skip_nodes vc_index (h1 ! a1)) = Inr fin"
    by simp
  from simplify_tree_rows [OF a1 this] obtain a2 h2 where
    run2: "simplify_tree vc_index h1 a1 None = (Inr (a2, default_skip_nodes vc_index (h1 ! a1)), h2)"
    and h2: "h2 ! a2 = fin" by blast
  from run1 run2 h1 h2 lv show ?thesis by auto
qed

lemma vc_index_first_spec: "vc_index_spec vc_index_first"
  by (simp add: vc_index_spec_def vc_index_first_def)

lemma acyclic_passthrough_tree: "acyclic (up_rel passthrough_tree)"
proof (rule acyclicI_order)
  fix a b assume "(a, b) \<in> up_rel passthrough_tree"
  then show "(\<lambda>s. if s = ''root'' then 0 else if s = ''R'' then 1
                   else if s = ''P'' \<or> s = ''b'' then 2 else (3::nat)) b
           < (\<lambda>s. if s = ''root'' then 0 else if s = ''R'' then 1
                   else if s = ''P'' \<or> s = ''b'' then 2 else (3::nat)) a"
    by (auto simp: up_rel_def passthrough_tree_def mk_row_def)
qed

lemma passthrough_again:
  "simplify_tree vc_index_first
     [passthrough_tree,
       [mk_row ''a'' ''R'' True 0 0, mk_row ''b'' ''R'' True 1 0,
        mk_row ''P'' ''R'' False 0 1, mk_row ''R'' ''root'' False (1/2) 2],
       [mk_row ''a'' ''R'' True 0 0, mk_row ''b'' ''R'' True 1 0,
        mk_row ''R'' ''root'' False (1/2) 2]] 2 None =
     (Inr (3, [''root'']),
      [passthrough_tree,
       [mk_row ''a'' ''R'' True 0 0, mk_row ''b'' ''R'' True 1 0,
        mk_row ''P'' ''R'' False 0 1, mk_row ''R'' ''root'' False (1/2) 2],
       [mk_row ''a'' ''R'' True 0 0, mk_row ''b'' ''R'' True 1 0,
        mk_row ''R'' ''root'' False (1/2) 2],
       [mk_row ''a'' ''R'' True 0 0, mk_row ''b'' ''R'' True 1 0,
        mk_row ''R'' ''root'' False (1/2) 2]])"
proof -
  show ?thesis
    unfolding simplify_tree_def Let_def option.case
    by (simp add: simplify_step_def parent_where_child_def np_unique_def mk_row_def
        default_skip_nodes_def vc_index_first_def)
qed

text \<open>Claim C6 on \<open>passthrough_tree\<close>: the second call removes nothing and the leaves are \<open>a\<close> and \<open>b\<close>.\<close>

theorem simplify_tree_idempotent_witness:
  "vc_index_spec vc_index_first \<and> (0::nat) < length [passthrough_tree] \<and>
   distinct (map child ([passthrough_tree] ! 0)) \<and>
   acyclic (up_rel ([passthrough_tree] ! 0)) \<and> leaf_flags_ok ([passthrough_tree] ! 0) \<and>
   fst (simplify_tree vc_index_first [passthrough_tree] 0 None) = Inr (2, [''P'', ''root'']) \<and>
   fst (simplify_tree vc_index_first
          (snd (simplify_tree vc_index_first [passthrough_tree] 0 None)) 2 None)
     = Inr (3, [''root'']) \<and>
   snd (simplify_tree vc_index_first
          (snd (simplify_tree vc_index_first [passthrough_tree] 0 None)) 2 None) ! 3
     = snd (simplify_tree vc_index_first [passthrough_tree] 0 None) ! 2 \<and>
   map child (filter isleaf (snd (simplify_tree vc_index_first [passthrough_tree] 0 None) ! 2))
     = [''a'', ''b'']"
proof -
  have l: "(0::nat) < length [passthrough_tree]" by simp
  have d: "distinct (map child ([passthrough_tree] ! 0))"
    by (simp add: passthrough_tree_def mk_row_def)
  have ac: "acyclic (up_rel ([passthrough_tree] ! 0))"
    using acyclic_passthrough_tree by simp
  have lf: "leaf_flags_ok ([passthrough_tree] ! 0)"
    by (simp add: leaf_flags_ok_def passthrough_tree_def mk_row_def)
  from simplify_tree_idempotent [OF vc_index_first_spec l d ac lf]
  show ?thesis
    using vc_index_first_spec l d ac lf
    by (simp add: passthrough_simplified passthrough_again) (simp add: mk_row_def)
qed

section \<open>Facts about calculate\_cophenetic\_distance\<close>

lemma up_rel_parent_where_child: "(d, e) \<in> up_rel t \<longleftrightarrow> e \<in> set (parent_where_child t d)"
  by (auto simp: up_rel_def parent_where_child_def)

lemma parent_where_child_empty: "parent_where_child t n = [] \<longleftrightarrow> n \<notin> set (map child t)"
  by (auto simp: parent_where_child_def filter_empty_conv)

lemma parent_where_child_le_one:
  "distinct (map child t) \<Longrightarrow> length (parent_where_child t n) \<le> Suc 0"
  by (simp add: parent_where_child_def filter_child_le_one)

lemma ancestors_loop_chain:
  assumes dc: "distinct (map child t)" and ac: "acyclic (up_rel t)"
    and ne: "[] \<notin> set (map child t)"
  shows "\<exists>chain. ancestors_loop t None cur acc = Some (Inr (acc @ chain)) \<and>
           up_chain t cur chain \<and> parent_where_child t (last (cur # chain)) = []"
proof -
  have "wf ((up_rel t)\<inverse>)"
    by (rule finite_acyclic_wf_converse [OF finite_up_rel ac])
  then show ?thesis
  proof (induction cur arbitrary: acc rule: wf_induct_rule)
    case (less cur)
    show ?case
    proof (cases "parent_where_child t cur")
      case Nil
      then have "ancestors_loop t None cur acc = Some (Inr acc)"
        by (subst ancestors_loop.simps) simp
      with Nil show ?thesis by (intro exI [of _ "[]"]) simp
    next
      case (Cons p ps)
      with parent_where_child_le_one [OF dc, of cur] have ps: "ps = []" by simp
      note single = Cons [unfolded ps]
      show ?thesis
      proof (cases "p = []")
        case True
        have "ancestors_loop t None cur acc = Some (Inr (acc @ [p]))"
          by (subst ancestors_loop.simps) (simp add: single True)
        moreover from True ne have "parent_where_child t p = []"
          by (simp add: parent_where_child_empty)
        ultimately show ?thesis using single by (intro exI [of _ "[p]"]) simp
      next
        case False
        from single have "(cur, p) \<in> up_rel t" by (simp add: up_rel_parent_where_child)
        then have "(p, cur) \<in> (up_rel t)\<inverse>" by simp
        from less [OF this, of "acc @ [p]"] obtain chain where
          c: "ancestors_loop t None p (acc @ [p]) = Some (Inr ((acc @ [p]) @ chain))"
          "up_chain t p chain" "parent_where_child t (last (p # chain)) = []"
          by blast
        have "ancestors_loop t None cur acc = Some (Inr (acc @ p # chain))"
          using c(1) False by (subst ancestors_loop.simps) (simp add: single)
        with c(2,3) single show ?thesis by (intro exI [of _ "p # chain"]) simp
      qed
    qed
  qed
qed

lemma up_chain_rtrancl:
  "up_chain t n chain \<Longrightarrow> d \<in> set (n # chain) \<Longrightarrow> (n, d) \<in> (up_rel t)\<^sup>*"
proof (induction chain arbitrary: n)
  case Nil
  then show ?case by simp
next
  case (Cons a as)
  from Cons.prems(1) have e: "(n, a) \<in> up_rel t" and ch: "up_chain t a as"
    by (simp_all add: up_rel_parent_where_child)
  show ?case
  proof (cases "d = n")
    case True
    then show ?thesis by simp
  next
    case False
    with Cons.prems(2) have "d \<in> set (a # as)" by simp
    from Cons.IH [OF ch this] e show ?thesis by (rule converse_rtrancl_into_rtrancl [rotated])
  qed
qed

lemma up_chain_closed:
  assumes "up_chain t n chain" "parent_where_child t (last (n # chain)) = []"
    and "d \<in> set (n # chain)" "(d, e) \<in> up_rel t"
  shows "e \<in> set (n # chain)"
  using assms
proof (induction chain arbitrary: n)
  case Nil
  then show ?case by (simp add: up_rel_parent_where_child)
next
  case (Cons a as)
  from Cons.prems(1) have pn: "parent_where_child t n = [a]" and ch: "up_chain t a as"
    by simp_all
  show ?case
  proof (cases "d = n")
    case True
    with Cons.prems(4) pn have "e = a" by (simp add: up_rel_parent_where_child)
    then show ?thesis by simp
  next
    case False
    with Cons.prems(3) have "d \<in> set (a # as)" by simp
    moreover from Cons.prems(2) have "parent_where_child t (last (a # as)) = []" by simp
    ultimately have "e \<in> set (a # as)" using Cons.IH [OF ch] Cons.prems(4) by blast
    then show ?thesis by simp
  qed
qed

lemma up_chain_complete:
  assumes "up_chain t n chain" "parent_where_child t (last (n # chain)) = []"
    and "(n, d) \<in> (up_rel t)\<^sup>*"
  shows "d \<in> set (n # chain)"
  using assms(3)
proof (induction rule: rtrancl_induct)
  case base
  then show ?case by simp
next
  case (step y z)
  from up_chain_closed [OF assms(1,2) step.IH step.hyps(2)] show ?case .
qed

lemma up_chain_suffix:
  "up_chain t n chain \<Longrightarrow> n # chain = pre @ c # post \<Longrightarrow> up_chain t c post"
proof (induction chain arbitrary: n pre)
  case Nil
  then show ?case by (cases pre) auto
next
  case (Cons a as)
  show ?case
  proof (cases pre)
    case Nil
    with Cons.prems show ?thesis by auto
  next
    case (Cons x pre')
    with Cons.prems(2) have "a # as = pre' @ c # post" by simp
    from Cons.IH [OF _ this] Cons.prems(1) show ?thesis by simp
  qed
qed

lemma pop_scan_rev:
  "pop_scan t (rev xs) ys =
     (case List.find (\<lambda>n. n \<in> set ys) xs of
        None \<Rightarrow> Inr None
      | Some c \<Rightarrow> (case node_height t c of None \<Rightarrow> Inl IndexError | Some h \<Rightarrow> Inr (Some h)))"
proof (induction xs)
  case Nil
  then show ?case by (subst pop_scan.simps) simp
next
  case (Cons x xs)
  show ?case
  proof (cases "x \<in> set ys")
    case True
    then show ?thesis
      by (subst pop_scan.simps) (simp add: node_height_def split: list.splits)
  next
    case False
    with Cons show ?thesis
      by (subst pop_scan.simps) simp
  qed
qed

lemma first_common_is_lca:
  assumes ci: "up_chain t li chain_i" "parent_where_child t (last (li # chain_i)) = []"
    and cj: "up_chain t lj chain_j" "parent_where_child t (last (lj # chain_j)) = []"
    and f: "List.find (\<lambda>n. n \<in> set (lj # chain_j)) (li # chain_i) = Some c"
  shows "is_lca t li lj c"
proof -
  from f obtain i where i: "i < length (li # chain_i)" "(li # chain_i) ! i \<in> set (lj # chain_j)"
    "c = (li # chain_i) ! i" "\<forall>k<i. (li # chain_i) ! k \<notin> set (lj # chain_j)"
    unfolding find_Some_iff by blast
  let ?pre = "take i (li # chain_i)" and ?post = "drop (Suc i) (li # chain_i)"
  from i(1,3) have split: "li # chain_i = ?pre @ c # ?post"
    using id_take_nth_drop [of i "li # chain_i"] by simp
  have pre: "\<forall>x\<in>set ?pre. x \<notin> set (lj # chain_j)"
  proof
    fix x assume "x \<in> set ?pre"
    then obtain k where "k < length ?pre" "?pre ! k = x" by (auto simp: in_set_conv_nth)
    with i(4) show "x \<notin> set (lj # chain_j)" by auto
  qed
  from i(1,3) have cin: "c \<in> set (li # chain_i)" by (metis nth_mem)
  have 1: "(li, c) \<in> (up_rel t)\<^sup>*" by (rule up_chain_rtrancl [OF ci(1) cin])
  from i(2,3) have 2: "(lj, c) \<in> (up_rel t)\<^sup>*" by (auto intro: up_chain_rtrancl [OF cj(1)])
  have 3: "(c, d) \<in> (up_rel t)\<^sup>*"
    if d: "(li, d) \<in> (up_rel t)\<^sup>*" "(lj, d) \<in> (up_rel t)\<^sup>*" for d
  proof -
    from up_chain_complete [OF ci d(1)] have "d \<in> set (?pre @ c # ?post)"
      by (simp only: split [symmetric])
    moreover from up_chain_complete [OF cj d(2)] pre have "d \<notin> set ?pre" by blast
    ultimately have "d \<in> set (c # ?post)" by auto
    from up_chain_rtrancl [OF up_chain_suffix [OF ci(1) split] this] show ?thesis .
  qed
  from 1 2 3 show ?thesis unfolding is_lca_def by blast
qed

lemma top_row_of_chain:
  assumes "up_chain t n chain" "parent_where_child t (last (n # chain)) = []"
    and "n \<in> set (map child t)"
  shows "\<exists>r\<in>set t. child r \<in> set (n # chain) \<and> parent r \<notin> set (map child t)"
  using assms
proof (induction chain arbitrary: n)
  case Nil
  then show ?case by (simp add: parent_where_child_empty)
next
  case (Cons a as)
  from Cons.prems(1) have pn: "parent_where_child t n = [a]" and ch: "up_chain t a as"
    by simp_all
  show ?case
  proof (cases "a \<in> set (map child t)")
    case True
    from Cons.prems(2) have "parent_where_child t (last (a # as)) = []" by simp
    from Cons.IH [OF ch this True] show ?thesis by auto
  next
    case False
    from pn have "(n, a) \<in> up_rel t" by (simp add: up_rel_parent_where_child)
    then obtain r where "r \<in> set t" "child r = n" "parent r = a"
      by (auto simp: up_rel_def)
    with False show ?thesis by auto
  qed
qed

lemma filter_le_one_unique:
  assumes "length (filter P xs) \<le> 1" "a \<in> set xs" "P a" "b \<in> set xs" "P b"
  shows "a = b"
proof -
  from assms have "a \<in> set (filter P xs)" "b \<in> set (filter P xs)" by simp_all
  with assms(1) show ?thesis
    by (cases "filter P xs") (auto split: if_splits)
qed

lemma no_row_rtrancl:
  assumes "c \<notin> set (map child t)" "(c, d) \<in> (up_rel t)\<^sup>*"
  shows "d = c"
  using assms(2)
proof (cases rule: converse_rtranclE)
  case base
  then show ?thesis by simp
next
  case (step z)
  then have "c \<in> set (map child t)" by (force simp: up_rel_def)
  with assms(1) show ?thesis by simp
qed

lemma node_height_row:
  assumes "distinct (map child t)" "r \<in> set t"
  shows "node_height t (child r) = Some (y_coord r)"
  by (simp add: node_height_def filter_child_single [OF assms])

lemma get_ancestors_chain:
  assumes "valid_dendrogram t" "n \<in> set (map child t)"
  shows "\<exists>chain. get_ancestors t n None = Some (Inr chain) \<and>
           up_chain t n chain \<and> parent_where_child t (last (n # chain)) = []"
proof -
  from assms(1) have dc: "distinct (map child t)" and ac: "acyclic (up_rel t)"
    and ne: "[] \<notin> set (map child t)"
    by (auto simp: valid_dendrogram_def image_iff)
  from ne assms(2) have "n \<noteq> []" by (auto simp: image_iff)
  with ancestors_loop_chain [OF dc ac ne, of n "[]"] show ?thesis
    by (simp add: get_ancestors_def)
qed

lemma common_height_lca:
  assumes v: "valid_dendrogram t" and li: "li \<in> set (map child t)" and lj: "lj \<in> set (map child t)"
  shows "\<exists>c h. common_height t li lj = Some (Inr (Some h)) \<and> is_lca t li lj c \<and>
           node_height t c = Some h"
proof -
  from v have dc: "distinct (map child t)"
    and top: "length (filter (\<lambda>r. parent r \<notin> set (map child t)) t) \<le> 1"
    by (auto simp: valid_dendrogram_def)
  from get_ancestors_chain [OF v li] obtain ci where
    ci: "get_ancestors t li None = Some (Inr ci)" "up_chain t li ci"
    "parent_where_child t (last (li # ci)) = []" by blast
  from get_ancestors_chain [OF v lj] obtain cj where
    cj: "get_ancestors t lj None = Some (Inr cj)" "up_chain t lj cj"
    "parent_where_child t (last (lj # cj)) = []" by blast
  from top_row_of_chain [OF ci(2,3) li] obtain ri where
    ri: "ri \<in> set t" "child ri \<in> set (li # ci)" "parent ri \<notin> set (map child t)" by blast
  from top_row_of_chain [OF cj(2,3) lj] obtain rj where
    rj: "rj \<in> set t" "child rj \<in> set (lj # cj)" "parent rj \<notin> set (map child t)" by blast
  from filter_le_one_unique [OF top ri(1,3) rj(1,3)] have same: "ri = rj" .
  with ri(2) rj(2) have "\<exists>x\<in>set (li # ci). x \<in> set (lj # cj)" by blast
  then have "List.find (\<lambda>n. n \<in> set (lj # cj)) (li # ci) \<noteq> None"
    unfolding find_None_iff by blast
  then obtain c where f: "List.find (\<lambda>n. n \<in> set (lj # cj)) (li # ci) = Some c"
    by blast
  from first_common_is_lca [OF ci(2,3) cj(2,3) f] have lca: "is_lca t li lj c" .
  have crow: "c \<in> set (map child t)"
  proof (rule ccontr)
    assume no: "c \<notin> set (map child t)"
    have "(li, child ri) \<in> (up_rel t)\<^sup>*" by (rule up_chain_rtrancl [OF ci(2) ri(2)])
    moreover have "(lj, child ri) \<in> (up_rel t)\<^sup>*"
      using up_chain_rtrancl [OF cj(2) rj(2)] same by simp
    ultimately have "(c, child ri) \<in> (up_rel t)\<^sup>*"
      using lca unfolding is_lca_def by blast
    from no_row_rtrancl [OF no this] ri(1) no show False by (auto simp: image_iff)
  qed
  then obtain r where r: "r \<in> set t" "child r = c" by auto
  from node_height_row [OF dc r(1)] r(2) have h: "node_height t c = Some (y_coord r)" by simp
  have "pop_scan t (rev (li # ci)) (lj # cj) = Inr (Some (y_coord r))"
    by (simp only: pop_scan_rev f h option.case)
  moreover have "common_height t li lj = Some (pop_scan t (rev (li # ci)) (lj # cj))"
    by (simp only: common_height_def ci(1) cj(1) option.case sum.case)
  ultimately have "common_height t li lj = Some (Inr (Some (y_coord r)))"
    by (simp only:)
  with lca h show ?thesis by blast
qed

lemma is_lca_unique:
  assumes "acyclic (up_rel t)" "is_lca t a b c" "is_lca t a b c'"
  shows "c = c'"
proof (rule ccontr)
  assume ne: "c \<noteq> c'"
  from assms(2,3) have "(c, c') \<in> (up_rel t)\<^sup>*" "(c', c) \<in> (up_rel t)\<^sup>*"
    unfolding is_lca_def by blast+
  with ne have "(c, c') \<in> (up_rel t)\<^sup>+" "(c', c) \<in> (up_rel t)\<^sup>+"
    by (auto simp: rtrancl_eq_or_trancl)
  then have "(c, c) \<in> (up_rel t)\<^sup>+" by (rule trancl_trans)
  with assms(1) show False by (auto simp: acyclic_def)
qed

lemma is_lca_commute: "is_lca t a b c \<longleftrightarrow> is_lca t b a c"
  unfolding is_lca_def by blast

lemma is_lca_self: "is_lca t a a a"
  unfolding is_lca_def by blast

lemma cophenetic_loop_ok:
  assumes "\<forall>p\<in>set pairs. \<exists>h. common_height t (fst p) (snd p) = Some (Inr (Some h))"
  shows "\<exists>D. cophenetic_loop t pairs D0 = Some (Inr D) \<and>
           (\<forall>a b. if (a, b) \<in> set pairs then common_height t a b = Some (Inr (D (b, a)))
                  else D (b, a) = D0 (b, a))"
  using assms
proof (induction pairs arbitrary: D0)
  case Nil
  then show ?case by simp
next
  case (Cons p pairs)
  obtain li lj where p: "p = (li, lj)" by (cases p)
  from Cons.prems p obtain v where v: "common_height t li lj = Some (Inr (Some v))" by auto
  from Cons.prems have "\<forall>p\<in>set pairs. \<exists>h. common_height t (fst p) (snd p) = Some (Inr (Some h))"
    by simp
  from Cons.IH [OF this, of "D0((lj, li) \<mapsto> v)"] obtain D where
    D: "cophenetic_loop t pairs (D0((lj, li) \<mapsto> v)) = Some (Inr D)"
    "\<forall>a b. if (a, b) \<in> set pairs then common_height t a b = Some (Inr (D (b, a)))
                  else D (b, a) = (D0((lj, li) \<mapsto> v)) (b, a)"
    by blast
  have "cophenetic_loop t (p # pairs) D0 = Some (Inr D)"
    by (simp add: p v D(1))
  moreover have "\<forall>a b. if (a, b) \<in> set (p # pairs)
                  then common_height t a b = Some (Inr (D (b, a)))
                  else D (b, a) = D0 (b, a)"
  proof (intro allI)
    fix a b
    show "if (a, b) \<in> set (p # pairs)
                  then common_height t a b = Some (Inr (D (b, a)))
                  else D (b, a) = D0 (b, a)"
    proof (cases "(a, b) \<in> set pairs")
      case True
      with D(2) show ?thesis by auto
    next
      case False
      with D(2) have "D (b, a) = (D0((lj, li) \<mapsto> v)) (b, a)" by (auto split: if_splits)
      with False p v show ?thesis by auto
    qed
  qed
  ultimately show ?case by blast
qed

lemma cophenetic_frame:
  assumes v: "valid_dendrogram t"
  shows "\<exists>D. calculate_cophenetic_distance t = Some (Inr D) \<and>
           (\<forall>li\<in>set (map child (filter isleaf t)). \<forall>lj\<in>set (map child (filter isleaf t)).
              common_height t lj li = Some (Inr (D (li, lj))))"
proof -
  let ?ll = "map child (filter isleaf t)"
  let ?zeros = "\<lambda>(a, b). if a \<in> set ?ll \<and> b \<in> set ?ll then Some (0::real) else None"
  have sub: "set ?ll \<subseteq> set (map child t)" by auto
  have "\<forall>p\<in>set (List.product ?ll ?ll).
          \<exists>h. common_height t (fst p) (snd p) = Some (Inr (Some h))"
  proof
    fix p assume "p \<in> set (List.product ?ll ?ll)"
    then have "fst p \<in> set (map child t)" "snd p \<in> set (map child t)"
      using sub by auto
    from common_height_lca [OF v this] show
      "\<exists>h. common_height t (fst p) (snd p) = Some (Inr (Some h))" by blast
  qed
  from cophenetic_loop_ok [OF this, of ?zeros] obtain D where
    D: "cophenetic_loop t (List.product ?ll ?ll) ?zeros = Some (Inr D)"
    "\<forall>a b. if (a, b) \<in> set (List.product ?ll ?ll)
            then common_height t a b = Some (Inr (D (b, a)))
            else D (b, a) = ?zeros (b, a)"
    by blast
  from D(1) have "calculate_cophenetic_distance t = Some (Inr D)"
    by (simp add: calculate_cophenetic_distance_def Let_def)
  moreover have "\<forall>li\<in>set ?ll. \<forall>lj\<in>set ?ll. common_height t lj li = Some (Inr (D (li, lj)))"
  proof (intro ballI)
    fix li lj assume "li \<in> set ?ll" "lj \<in> set ?ll"
    then have "(lj, li) \<in> set (List.product ?ll ?ll)" by simp
    with D(2) show "common_height t lj li = Some (Inr (D (li, lj)))" by meson
  qed
  ultimately show ?thesis by blast
qed

lemma valid_dendrogram_example: "valid_dendrogram example_tree"
  unfolding valid_dendrogram_def
  using acyclic_example_tree
  by (simp add: example_tree_def mk_row_def)

lemma common_height_example:
  "common_height example_tree ''a2'' ''a1'' = Some (Inr (Some 1))"
  "common_height example_tree ''B'' ''a1'' = Some (Inr (Some 2))"
  by (simp_all add: common_height_def get_ancestors_def ancestors_loop.simps
      parent_where_child_def pop_scan.simps example_tree_def mk_row_def)

text \<open>
  Claim C1: for every valid dendrogram \<open>calculate_cophenetic_distance\<close> returns a frame in
  which the entry of every pair of leaves is the height of their lowest common ancestor;
  the frame is symmetric and zero on the diagonal. For the worked example the entry of
  \<open>a1\<close> and \<open>a2\<close> is 1 and that of \<open>a1\<close> and \<open>B\<close> is 2.
\<close>

theorem cophenetic_distance_is_lca_height:
  "(valid_dendrogram t \<longrightarrow>
     (\<exists>D. calculate_cophenetic_distance t = Some (Inr D) \<and>
        (\<forall>li\<in>set (map child (filter isleaf t)). \<forall>lj\<in>set (map child (filter isleaf t)).
           (\<exists>c h. is_lca t li lj c \<and> node_height t c = Some h \<and> D (li, lj) = Some h) \<and>
           D (li, lj) = D (lj, li) \<and> D (li, li) = Some 0))) \<and>
   (\<exists>D. calculate_cophenetic_distance example_tree = Some (Inr D) \<and>
      D (''a1'', ''a2'') = Some 1 \<and> D (''a1'', ''B'') = Some 2)"
proof (intro conjI impI)
  assume v: "valid_dendrogram t"
  let ?ll = "map child (filter isleaf t)"
  from v have dc: "distinct (map child t)" and ac: "acyclic (up_rel t)"
    and l0: "\<forall>r\<in>set t. isleaf r \<longrightarrow> y_coord r = 0"
    by (auto simp: valid_dendrogram_def)
  from cophenetic_frame [OF v] obtain D where
    D: "calculate_cophenetic_distance t = Some (Inr D)"
    "\<forall>li\<in>set ?ll. \<forall>lj\<in>set ?ll. common_height t lj li = Some (Inr (D (li, lj)))"
    by blast
  have cell: "\<exists>c h. is_lca t li lj c \<and> node_height t c = Some h \<and> D (li, lj) = Some h"
    if "li \<in> set ?ll" "lj \<in> set ?ll" for li lj
  proof -
    from that have "lj \<in> set (map child t)" "li \<in> set (map child t)" by auto
    from common_height_lca [OF v this] obtain c h where
      "common_height t lj li = Some (Inr (Some h))" "is_lca t lj li c" "node_height t c = Some h"
      by blast
    with D(2) that show ?thesis using is_lca_commute [of t li lj c] by auto
  qed
  have "\<forall>li\<in>set ?ll. \<forall>lj\<in>set ?ll.
           (\<exists>c h. is_lca t li lj c \<and> node_height t c = Some h \<and> D (li, lj) = Some h) \<and>
           D (li, lj) = D (lj, li) \<and> D (li, li) = Some 0"
  proof (intro ballI conjI)
    fix li lj assume li: "li \<in> set ?ll" and lj: "lj \<in> set ?ll"
    show "\<exists>c h. is_lca t li lj c \<and> node_height t c = Some h \<and> D (li, lj) = Some h"
      by (rule cell [OF li lj])
    from cell [OF li lj] obtain c h where
      1: "is_lca t li lj c" "node_height t c = Some h" "D (li, lj) = Some h" by blast
    from cell [OF lj li] obtain c' h' where
      2: "is_lca t lj li c'" "node_height t c' = Some h'" "D (lj, li) = Some h'" by blast
    from 2(1) have "is_lca t li lj c'" by (simp add: is_lca_commute)
    from is_lca_unique [OF ac 1(1) this] 1 2 show "D (li, lj) = D (lj, li)" by simp
    from cell [OF li li] obtain c0 h0 where
      3: "is_lca t li li c0" "node_height t c0 = Some h0" "D (li, li) = Some h0" by blast
    from is_lca_unique [OF ac 3(1) is_lca_self] have c0: "c0 = li" .
    from li obtain r where r: "r \<in> set t" "isleaf r" "child r = li" by auto
    from node_height_row [OF dc r(1)] r l0 have "node_height t li = Some 0" by simp
    with 3 c0 show "D (li, li) = Some 0" by simp
  qed
  with D(1) show "\<exists>D. calculate_cophenetic_distance t = Some (Inr D) \<and>
        (\<forall>li\<in>set ?ll. \<forall>lj\<in>set ?ll.
           (\<exists>c h. is_lca t li lj c \<and> node_height t c = Some h \<and> D (li, lj) = Some h) \<and>
           D (li, lj) = D (lj, li) \<and> D (li, li) = Some 0)" by blast
next
  from cophenetic_frame [OF valid_dendrogram_example] obtain D where
    D: "calculate_cophenetic_distance example_tree = Some (Inr D)"
    "\<forall>li\<in>set (map child (filter isleaf example_tree)).
       \<forall>lj\<in>set (map child (filter isleaf example_tree)).
          common_height example_tree lj li = Some (Inr (D (li, lj)))"
    by blast
  have "''a1'' \<in> set (map child (filter isleaf example_tree))"
    "''a2'' \<in> set (map child (filter isleaf example_tree))"
    "''B'' \<in> set (map child (filter isleaf example_tree))"
    by (simp_all add: example_tree_def mk_row_def)
  with D(2) have "common_height example_tree ''a2'' ''a1'' = Some (Inr (D (''a1'', ''a2'')))"
    "common_height example_tree ''B'' ''a1'' = Some (Inr (D (''a1'', ''B'')))"
    by blast+
  with common_height_example have "D (''a1'', ''a2'') = Some 1" "D (''a1'', ''B'') = Some 2"
    by simp_all
  with D(1) show "\<exists>D. calculate_cophenetic_distance example_tree = Some (Inr D) \<and>
      D (''a1'', ''a2'') = Some 1 \<and> D (''a1'', ''B'') = Some 2" by blast
qed

text \<open>Claim C1 on the worked example: the lowest common ancestor of \<open>a1\<close> and \<open>B\<close> is \<open>R\<close>, at height 2.\<close>

theorem cophenetic_distance_is_lca_height_witness:
  "valid_dendrogram example_tree \<and>
   ''a1'' \<in> set (map child (filter isleaf example_tree)) \<and>
   ''B'' \<in> set (map child (filter isleaf example_tree)) \<and>
   is_lca example_tree ''a1'' ''B'' ''R'' \<and> node_height example_tree ''R'' = Some 2 \<and>
   (\<exists>D. calculate_cophenetic_distance example_tree = Some (Inr D) \<and>
      D (''a1'', ''a2'') = Some 1 \<and> D (''a1'', ''B'') = Some 2 \<and> D (''B'', ''a1'') = Some 2 \<and>
      D (''a1'', ''a1'') = Some 0)"
proof -
  note th = cophenetic_distance_is_lca_height [of example_tree]
  have m: "''a1'' \<in> set (map child (filter isleaf example_tree))"
    "''B'' \<in> set (map child (filter isleaf example_tree))"
    by (simp_all add: example_tree_def mk_row_def)
  from th valid_dendrogram_example obtain D where
    D: "calculate_cophenetic_distance example_tree = Some (Inr D)"
    and all: "\<forall>li\<in>set (map child (filter isleaf example_tree)).
           \<forall>lj\<in>set (map child (filter isleaf example_tree)).
           (\<exists>c h. is_lca example_tree li lj c \<and> node_height example_tree c = Some h \<and>
                D (li, lj) = Some h) \<and>
           D (li, lj) = D (lj, li) \<and> D (li, li) = Some 0"
    by blast
  from th obtain D' where
    D': "calculate_cophenetic_distance example_tree = Some (Inr D')"
    "D' (''a1'', ''a2'') = Some 1" "D' (''a1'', ''B'') = Some 2" by blast
  from D D'(1) have eq: "D' = D" by simp
  from all m obtain c h where
    lca: "is_lca example_tree ''a1'' ''B'' c" "node_height example_tree c = Some h"
    "D (''a1'', ''B'') = Some h" "D (''a1'', ''B'') = D (''B'', ''a1'')"
    "D (''a1'', ''a1'') = Some 0" by blast
  from lca(3) D'(3) eq have h: "h = 2" by simp
  have nh: "node_height example_tree n = Some 2 \<longleftrightarrow> n = ''R''" for n
    by (auto simp: node_height_def example_tree_def mk_row_def)
  from lca(2) h nh have "c = ''R''" by simp
  with lca h D D' eq m valid_dendrogram_example nh show ?thesis by auto
qed

section \<open>Facts about calculate\_wasserstein\_distance\<close>

lemma dot_Nil [simp]: "dot [] v = 0" "dot u [] = 0"
  by (simp_all add: dot_def)

lemma dot_Cons [simp]: "dot (a # u) (b # v) = a * b + dot u v"
  by (simp add: dot_def)

lemma dot_append:
  "length u = length x1 \<Longrightarrow> dot (u @ v) (x1 @ x2) = dot u x1 + dot v x2"
  by (simp add: dot_def)

lemma length_reshape [simp]: "length (reshape m n xs) = m"
  by (induction m arbitrary: xs) simp_all

lemma reshape_row_length:
  "length xs = m * n \<Longrightarrow> row \<in> set (reshape m n xs) \<Longrightarrow> length row = n"
proof (induction m arbitrary: xs)
  case 0
  then show ?case by simp
next
  case (Suc m)
  from Suc.prems(1) have l: "length (drop n xs) = m * n" by simp
  from Suc.prems consider "row = take n xs" | "row \<in> set (reshape m n (drop n xs))" by auto
  then show ?case
  proof cases
    case 1
    with Suc.prems(1) show ?thesis by simp
  next
    case 2
    from Suc.IH [OF l 2] show ?thesis .
  qed
qed

lemma reshape_entries:
  "row \<in> set (reshape m n xs) \<Longrightarrow> v \<in> set row \<Longrightarrow> v \<in> set xs"
proof (induction m arbitrary: xs)
  case 0
  then show ?case by simp
next
  case (Suc m)
  then show ?case by (auto dest: in_set_takeD in_set_dropD)
qed

lemma reshape_concat:
  "\<forall>row\<in>set M. length row = n \<Longrightarrow> reshape (length M) n (concat M) = M"
  by (induction M) simp_all

lemma length_concat_rows:
  "\<forall>row\<in>set M. length row = n \<Longrightarrow> length (concat M) = length M * n"
  by (induction M) simp_all

lemma dot_concat_reshape:
  assumes "\<forall>row\<in>set M. length row = n" "length xs = length M * n"
  shows "dot (concat M) xs = sum_list (map2 dot M (reshape (length M) n xs))"
  using assms
proof (induction M arbitrary: xs)
  case Nil
  then show ?case by simp
next
  case (Cons r M)
  from Cons.prems have r: "length r = n" and M: "\<forall>row\<in>set M. length row = n"
    and l: "length (drop n xs) = length M * n" and t: "length (take n xs) = n"
    by simp_all
  have "dot (concat (r # M)) xs = dot (r @ concat M) (take n xs @ drop n xs)" by simp
  also have "\<dots> = dot r (take n xs) + dot (concat M) (drop n xs)"
    using r t by (intro dot_append) simp
  finally show ?case using Cons.IH [OF M l] by simp
qed

lemma map2_upt:
  "length T = n \<Longrightarrow> map2 f (map g [0..<n]) T = map (\<lambda>r. f (g r) (T ! r)) [0..<n]"
  by (intro nth_equalityI) simp_all

lemma map_nth_upt: "length T = n \<Longrightarrow> map (\<lambda>r. h (T ! r)) [0..<n] = map h T"
  by (intro nth_equalityI) simp_all

lemma sum_list_delta:
  "i < n \<Longrightarrow> sum_list (map (\<lambda>r. if r = i then f r else (0::real)) [0..<n]) = f i"
  by (simp add: interv_sum_list_conv_sum_set_nat)

lemma dot_unit:
  assumes "length row = n" "j < n"
  shows "dot (map (\<lambda>c. if c = j then p else 0) [0..<n]) row = p * row ! j"
proof -
  have "dot (map (\<lambda>c. if c = j then p else 0) [0..<n]) row =
          sum_list (map (\<lambda>c. (if c = j then p else 0) * row ! c) [0..<n])"
    by (simp only: dot_def map2_upt [OF assms(1)])
  also have "\<dots> = sum_list (map (\<lambda>c. if c = j then p * row ! c else 0) [0..<n])"
    by (intro arg_cong [where f = sum_list] map_cong) auto
  also have "\<dots> = p * row ! j" by (rule sum_list_delta [OF assms(2)])
  finally show ?thesis .
qed

lemma dot_const:
  "length row = n \<Longrightarrow> dot (map (\<lambda>c. k) [0..<n]) row = k * sum_list row"
proof -
  assume l: "length row = n"
  have "dot (map (\<lambda>c. k) [0..<n]) row = sum_list (map (\<lambda>c. k * row ! c) [0..<n])"
    by (simp only: dot_def map2_upt [OF l])
  also have "\<dots> = sum_list (map (\<lambda>v. k * v) row)"
    by (simp only: map_nth_upt [OF l, of "\<lambda>v. k * v"])
  also have "\<dots> = k * sum_list row" by (simp add: sum_list_const_mult)
  finally show ?thesis .
qed

lemma row_constraint_rows:
  "\<forall>row\<in>set (map (\<lambda>r. map (\<lambda>c. if r = i then (1::real) else 0) [0..<n]) [0..<n]). length row = n"
  "\<forall>row\<in>set (map (\<lambda>r. map (\<lambda>c. if c = j then (1::real) else 0) [0..<n]) [0..<n]). length row = n"
  by simp_all

lemma dot_row_constraint:
  assumes "length xs = n * n" "i < n"
  shows "dot (row_constraint n i) xs = sum_list (reshape n n xs ! i)"
proof -
  let ?T = "reshape n n xs"
  let ?M = "map (\<lambda>r. map (\<lambda>c. if r = i then (1::real) else 0) [0..<n]) [0..<n]"
  have rows: "\<And>r. r < n \<Longrightarrow> length (?T ! r) = n"
    using reshape_row_length [OF assms(1)] by simp
  have "dot (row_constraint n i) xs = sum_list (map2 dot ?M ?T)"
    unfolding row_constraint_def
    using dot_concat_reshape [where M = ?M and n = n and xs = xs] assms(1) by simp
  also have "\<dots> = sum_list (map (\<lambda>r. dot (map (\<lambda>c. if r = i then 1 else 0) [0..<n]) (?T ! r)) [0..<n])"
    by (simp only: map2_upt [OF length_reshape])
  also have "\<dots> = sum_list (map (\<lambda>r. if r = i then sum_list (?T ! r) else 0) [0..<n])"
    by (intro arg_cong [where f = sum_list] map_cong refl) (simp add: dot_const rows)
  also have "\<dots> = sum_list (?T ! i)" by (rule sum_list_delta [OF assms(2)])
  finally show ?thesis .
qed

lemma dot_col_constraint:
  assumes "length xs = n * n" "j < n"
  shows "dot (col_constraint n j) xs = sum_list (map (\<lambda>row. row ! j) (reshape n n xs))"
proof -
  let ?T = "reshape n n xs"
  let ?M = "map (\<lambda>r. map (\<lambda>c. if c = j then (1::real) else 0) [0..<n]) [0..<n]"
  have rows: "\<And>r. r < n \<Longrightarrow> length (?T ! r) = n"
    using reshape_row_length [OF assms(1)] by simp
  have "dot (col_constraint n j) xs = sum_list (map2 dot ?M ?T)"
    unfolding col_constraint_def
    using dot_concat_reshape [where M = ?M and n = n and xs = xs] assms(1) by simp
  also have "\<dots> = sum_list (map (\<lambda>r. dot (map (\<lambda>c. if c = j then 1 else 0) [0..<n]) (?T ! r)) [0..<n])"
    by (simp only: map2_upt [OF length_reshape])
  also have "\<dots> = sum_list (map (\<lambda>r. ?T ! r ! j) [0..<n])"
    by (intro arg_cong [where f = sum_list] map_cong refl) (simp add: dot_unit rows assms(2))
  also have "\<dots> = sum_list (map (\<lambda>row. row ! j) ?T)"
    by (simp only: map_nth_upt [OF length_reshape, of "\<lambda>row. row ! j"])
  finally show ?thesis .
qed

text \<open>The equality constraints say: rows sum to \<open>P\<close>, columns sum to \<open>Q\<close>.\<close>

lemma constraints_iff:
  assumes "length xs = n * n" "length P = n" "length Q = n"
  shows "map (\<lambda>row. dot row xs) (map (row_constraint n) [0..<n] @ map (col_constraint n) [0..<n])
           = P @ Q \<longleftrightarrow>
         map sum_list (reshape n n xs) = P \<and>
         map (\<lambda>j. sum_list (map (\<lambda>row. row ! j) (reshape n n xs))) [0..<n] = Q"
proof -
  let ?T = "reshape n n xs"
  have r: "map (\<lambda>row. dot row xs) (map (row_constraint n) [0..<n]) = map sum_list ?T"
  proof -
    have "map (\<lambda>row. dot row xs) (map (row_constraint n) [0..<n])
            = map (\<lambda>i. sum_list (?T ! i)) [0..<n]"
      by (simp add: dot_row_constraint [OF assms(1)])
    also have "\<dots> = map sum_list ?T"
      by (simp only: map_nth_upt [OF length_reshape, of sum_list])
    finally show ?thesis .
  qed
  have c: "map (\<lambda>row. dot row xs) (map (col_constraint n) [0..<n])
            = map (\<lambda>j. sum_list (map (\<lambda>row. row ! j) ?T)) [0..<n]"
    by (simp add: dot_col_constraint [OF assms(1)])
  have "map (\<lambda>row. dot row xs) (map (row_constraint n) [0..<n] @ map (col_constraint n) [0..<n])
          = map sum_list ?T @ map (\<lambda>j. sum_list (map (\<lambda>row. row ! j) ?T)) [0..<n]"
    by (simp only: map_append r c)
  moreover have "length (map sum_list ?T) = length P" using assms(2) by simp
  ultimately show ?thesis using append_eq_append_conv by metis
qed

lemma bounds_nonneg:
  "list_all2 in_bounds (replicate m (0, None)) z \<longleftrightarrow> length z = m \<and> (\<forall>v\<in>set z. 0 \<le> v)"
  by (auto simp: list_all2_conv_all_nth in_bounds_def all_set_conv_all_nth)

lemma concat_reshape: "length xs = m * n \<Longrightarrow> concat (reshape m n xs) = xs"
  by (induction m arbitrary: xs) simp_all

lemma feasible_plan:
  assumes "length P = n" "length Q = n" "length c = n * n"
  shows "lp_feasible c (map (row_constraint n) [0..<n] @ map (col_constraint n) [0..<n])
           (P @ Q) (replicate (n * n) (0, None)) z \<longleftrightarrow>
         length z = n * n \<and> transport_plan P Q (reshape n n z)"
proof (cases "length z = n * n")
  case False
  with assms(3) show ?thesis by (auto simp: lp_feasible_def)
next
  case True
  have "(\<forall>v\<in>set z. 0 \<le> v) \<longleftrightarrow> (\<forall>row\<in>set (reshape n n z). \<forall>v\<in>set row. 0 \<le> v)"
  proof
    assume "\<forall>v\<in>set z. 0 \<le> v"
    then show "\<forall>row\<in>set (reshape n n z). \<forall>v\<in>set row. 0 \<le> v"
      by (blast dest: reshape_entries)
  next
    assume a: "\<forall>row\<in>set (reshape n n z). \<forall>v\<in>set row. 0 \<le> v"
    have "set z = set (concat (reshape n n z))" by (simp add: concat_reshape [OF True])
    with a show "\<forall>v\<in>set z. 0 \<le> v" by auto
  qed
  moreover have "\<forall>row\<in>set (reshape n n z). length row = length P"
    using reshape_row_length [OF True] assms(1) by blast
  ultimately show ?thesis
    using True assms constraints_iff [OF True assms(1,2)]
    by (simp add: lp_feasible_def transport_plan_def bounds_nonneg) blast
qed

lemma cost_reshape:
  assumes "length D = n" "\<forall>row\<in>set D. length row = n" "length z = n * n"
  shows "dot (concat D) z = transport_cost D (reshape n n z)"
  using dot_concat_reshape [OF assms(2), of z] assms(1,3) by (simp add: transport_cost_def)

lemma plan_concat:
  assumes "transport_plan P Q T"
  shows "length (concat T) = length P * length P" "reshape (length P) (length P) (concat T) = T"
proof -
  from assms have l: "length T = length P" and r: "\<forall>row\<in>set T. length row = length P"
    by (simp_all add: transport_plan_def)
  from length_concat_rows [OF r] l show "length (concat T) = length P * length P" by simp
  from reshape_concat [OF r] l show "reshape (length P) (length P) (concat T) = T" by simp
qed

lemma dot_commute: "dot u v = dot v u"
  unfolding dot_def
  by (induction u arbitrary: v) (simp, case_tac v, simp_all add: mult.commute)

lemma dot_nonneg: "\<forall>a\<in>set u. 0 \<le> a \<Longrightarrow> \<forall>b\<in>set v. 0 \<le> b \<Longrightarrow> 0 \<le> dot u v"
  unfolding dot_def
  by (induction u arbitrary: v) (simp, case_tac v, simp_all)

lemma transport_cost_nonneg:
  assumes "\<forall>row\<in>set D. \<forall>v\<in>set row. 0 \<le> v" "\<forall>row\<in>set T. \<forall>v\<in>set row. 0 \<le> v"
  shows "0 \<le> transport_cost D T"
  using assms unfolding transport_cost_def
proof (induction D arbitrary: T)
  case Nil
  then show ?case by simp
next
  case (Cons r D)
  then show ?case by (cases T) (simp_all add: dot_nonneg)
qed

lemma stay_plan_is_plan:
  assumes "\<forall>p\<in>set P. 0 \<le> p"
  shows "transport_plan P P (stay_plan P)"
proof -
  let ?n = "length P"
  have rows: "map sum_list (stay_plan P) = P"
  proof -
    have "map sum_list (stay_plan P) = map (\<lambda>i. P ! i) [0..<?n]"
      by (simp add: stay_plan_def comp_def sum_list_delta)
    then show ?thesis by (simp add: map_nth)
  qed
  have cols: "map (\<lambda>j. sum_list (map (\<lambda>row. row ! j) (stay_plan P))) [0..<?n] = P"
  proof -
    have "sum_list (map (\<lambda>row. row ! j) (stay_plan P)) = P ! j" if "j < ?n" for j
    proof -
      have "map (\<lambda>row. row ! j) (stay_plan P) = map (\<lambda>i. if i = j then P ! i else 0) [0..<?n]"
        using that by (auto simp: stay_plan_def)
      then show ?thesis by (simp add: sum_list_delta [OF that])
    qed
    then have "map (\<lambda>j. sum_list (map (\<lambda>row. row ! j) (stay_plan P))) [0..<?n]
                 = map (\<lambda>j. P ! j) [0..<?n]" by simp
    then show ?thesis by (simp add: map_nth)
  qed
  have nn: "\<forall>row\<in>set (stay_plan P). \<forall>v\<in>set row. 0 \<le> v"
    using assms by (auto simp: stay_plan_def)
  show ?thesis
    unfolding transport_plan_def using rows cols nn by (simp add: stay_plan_def)
qed

lemma stay_plan_cost:
  assumes "length D = length P" "\<forall>row\<in>set D. length row = length P"
    and "\<forall>i<length P. D ! i ! i = 0"
  shows "transport_cost D (stay_plan P) = 0"
proof -
  let ?n = "length P"
  have "map2 dot D (stay_plan P) = map (\<lambda>i. 0) [0..<?n]"
  proof (intro nth_equalityI)
    show "length (map2 dot D (stay_plan P)) = length (map (\<lambda>i. 0::real) [0..<?n])"
      using assms(1) by (simp add: stay_plan_def)
  next
    fix i assume "i < length (map2 dot D (stay_plan P))"
    then have i: "i < ?n" using assms(1) by (simp add: stay_plan_def)
    with assms(1,2) have li: "length (D ! i) = ?n" by simp
    have "map2 dot D (stay_plan P) ! i
            = dot (D ! i) (map (\<lambda>j. if j = i then P ! i else 0) [0..<?n])"
      using i assms(1) by (simp add: stay_plan_def cong: if_cong)
    also have "\<dots> = P ! i * D ! i ! i"
      by (simp only: dot_commute [of "D ! i"] dot_unit [OF li i])
    also have "\<dots> = 0" using assms(3) i by simp
    finally show "map2 dot D (stay_plan P) ! i = map (\<lambda>i. 0) [0..<?n] ! i" using i by simp
  qed
  then show ?thesis by (simp add: transport_cost_def)
qed

text \<open>
  Claim C4: for \<open>P\<close> and \<open>Q\<close> of length \<open>n\<close> and an \<open>n\<close> by \<open>n\<close> matrix \<open>D\<close>, a
  successful call returns a transport plan for \<open>P\<close> and \<open>Q\<close> together with its cost, and
  no transport plan is cheaper; with \<open>Q = P\<close>, no negative entry in \<open>P\<close> and \<open>D\<close> and a
  zero diagonal of \<open>D\<close> the cost is 0. The program handed to the solver is the transport
  program; the solver is taken to meet \<open>linprog_spec\<close>, over the reals.
\<close>

theorem wasserstein_is_optimal_transport:
  assumes spec: "linprog_spec linprog"
    and lq: "length Q = length P" and ld: "length D = length P"
    and rd: "\<forall>row\<in>set D. length row = length P"
    and run: "calculate_wasserstein_distance linprog P Q D = Inr (Some (T, cost))"
  shows "transport_plan P Q T \<and> cost = transport_cost D T \<and>
         (\<forall>T'. transport_plan P Q T' \<longrightarrow> cost \<le> transport_cost D T') \<and>
         (Q = P \<and> (\<forall>p\<in>set P. 0 \<le> p) \<and> (\<forall>row\<in>set D. \<forall>v\<in>set row. 0 \<le> v) \<and>
            (\<forall>i<length P. D ! i ! i = 0) \<longrightarrow> cost = 0)"
proof -
  let ?n = "length P"
  let ?c = "concat D"
  let ?A = "map (row_constraint ?n) [0..<?n] @ map (col_constraint ?n) [0..<?n]"
  let ?bd = "replicate (?n * ?n) (0::real, None::real option)"
  let ?r = "linprog ?c ?A (P @ Q) ?bd"
  from length_concat_rows [OF rd] ld have lc: "length ?c = ?n * ?n" by simp
  from run lq lc have ok: "lp_success ?r" and T: "T = reshape ?n ?n (lp_x ?r)"
    and cost: "cost = lp_fun ?r"
    by (auto simp: calculate_wasserstein_distance_def Let_def split: if_splits)
  from spec ok have feas: "lp_feasible ?c ?A (P @ Q) ?bd (lp_x ?r)"
    and fn: "lp_fun ?r = dot ?c (lp_x ?r)"
    and opt: "\<forall>z. lp_feasible ?c ?A (P @ Q) ?bd z \<longrightarrow> dot ?c (lp_x ?r) \<le> dot ?c z"
    unfolding linprog_spec_def by blast+
  note fp = feasible_plan [OF refl lq lc]
  from feas fp have lx: "length (lp_x ?r) = ?n * ?n" and plan: "transport_plan P Q T"
    by (simp_all add: T)
  from cost fn cost_reshape [OF ld rd lx] T have c: "cost = transport_cost D T" by simp
  have min: "cost \<le> transport_cost D T'" if p: "transport_plan P Q T'" for T'
  proof -
    from plan_concat [OF p] p fp have "lp_feasible ?c ?A (P @ Q) ?bd (concat T')" by simp
    with opt have "dot ?c (lp_x ?r) \<le> dot ?c (concat T')" by blast
    with cost fn cost_reshape [OF ld rd plan_concat(1) [OF p]] plan_concat(2) [OF p]
    show ?thesis by simp
  qed
  have zero: "cost = 0" if "Q = P" "\<forall>p\<in>set P. 0 \<le> p" "\<forall>row\<in>set D. \<forall>v\<in>set row. 0 \<le> v"
    "\<forall>i<length P. D ! i ! i = 0"
  proof -
    from stay_plan_is_plan [OF that(2)] that(1) have "transport_plan P Q (stay_plan P)" by simp
    from min [OF this] stay_plan_cost [OF ld rd that(4)] have "cost \<le> 0" by simp
    moreover from plan have "\<forall>row\<in>set T. \<forall>v\<in>set row. 0 \<le> v"
      by (simp add: transport_plan_def)
    from transport_cost_nonneg [OF that(3) this] c have "0 \<le> cost" by simp
    ultimately show ?thesis by simp
  qed
  from plan c min zero show ?thesis by blast
qed

lemma linprog_demo_spec: "linprog_spec linprog_demo"
  unfolding linprog_spec_def
proof (intro allI impI)
  fix c A_eq b_eq bounds
  assume ok: "lp_success (linprog_demo c A_eq b_eq bounds)"
  then have inp: "c = [0, 1, 1, 0]"
    "A_eq = [[1, 1, 0, 0], [0, 0, 1, 1], [1, 0, 1, 0], [0, 1, 0, 1]]"
    "b_eq = [1/2, 1/2, 1/2, 1/2]" "bounds = replicate 4 (0, None)"
    by (auto simp: linprog_demo_def split: if_splits)
  then have res: "linprog_demo c A_eq b_eq bounds = LpResult True [1/2, 0, 0, 1/2] 0"
    by (simp add: linprog_demo_def)
  have 1: "lp_feasible c A_eq b_eq bounds [1/2, 0, 0, 1/2]"
    unfolding inp lp_feasible_def bounds_nonneg by simp
  have 2: "(0::real) = dot c [1/2, 0, 0, 1/2]" unfolding inp by simp
  have 3: "dot c [1/2, 0, 0, 1/2] \<le> dot c z" if "lp_feasible c A_eq b_eq bounds z" for z
  proof -
    from that have "\<forall>b\<in>set z. 0 \<le> b"
      unfolding inp lp_feasible_def bounds_nonneg by simp
    moreover have "\<forall>a\<in>set c. 0 \<le> a" unfolding inp by simp
    ultimately have "0 \<le> dot c z" by (intro dot_nonneg)
    with 2 show ?thesis by simp
  qed
  from 1 2 3 show "lp_feasible c A_eq b_eq bounds (lp_x (linprog_demo c A_eq b_eq bounds)) \<and>
       lp_fun (linprog_demo c A_eq b_eq bounds) = dot c (lp_x (linprog_demo c A_eq b_eq bounds)) \<and>
       (\<forall>z. lp_feasible c A_eq b_eq bounds z \<longrightarrow>
            dot c (lp_x (linprog_demo c A_eq b_eq bounds)) \<le> dot c z)"
    unfolding res by simp
qed

lemma wasserstein_demo:
  "calculate_wasserstein_distance linprog_demo [1/2, 1/2] [1/2, 1/2] [[0, 1], [1, 0]]
     = Inr (Some ([[1/2, 0], [0, 1/2]], 0))"
  by (simp add: calculate_wasserstein_distance_def Let_def row_constraint_def col_constraint_def
      linprog_demo_def upt_rec numeral_nat)

text \<open>Claim C4 on two labels: the plan found is a transport plan of cost 0, and another plan is not cheaper.\<close>

theorem wasserstein_is_optimal_transport_witness:
  "linprog_spec linprog_demo \<and>
   length [1/2, 1/2 :: real] = length [1/2, 1/2 :: real] \<and>
   length [[0, 1], [1, 0 :: real]] = length [1/2, 1/2 :: real] \<and>
   calculate_wasserstein_distance linprog_demo [1/2, 1/2] [1/2, 1/2] [[0, 1], [1, 0]]
     = Inr (Some ([[1/2, 0], [0, 1/2]], 0)) \<and>
   transport_plan [1/2, 1/2] [1/2, 1/2] [[1/2, 0], [0, 1/2]] \<and>
   (0::real) = transport_cost [[0, 1], [1, 0]] [[1/2, 0], [0, 1/2]] \<and>
   transport_plan [1/2, 1/2] [1/2, 1/2] [[1/4, 1/4], [1/4, 1/4]] \<and>
   (0::real) \<le> transport_cost [[0, 1], [1, 0]] [[1/4, 1/4], [1/4, 1/4]]"
proof -
  have l: "length [1/2, 1/2 :: real] = length [1/2, 1/2 :: real]"
    "length [[0, 1], [1, 0 :: real]] = length [1/2, 1/2 :: real]"
    "\<forall>row\<in>set [[0, 1], [1, 0 :: real]]. length row = length [1/2, 1/2 :: real]"
    by simp_all
  have p: "transport_plan [1/2, 1/2] [1/2, 1/2] [[1/4, 1/4], [1/4, 1/4]]"
    by (simp add: transport_plan_def upt_rec numeral_nat)
  from wasserstein_is_optimal_transport [OF linprog_demo_spec l wasserstein_demo] p
  have "transport_plan [1/2, 1/2] [1/2, 1/2] [[1/2, 0], [0, 1/2]]"
    "(0::real) = transport_cost [[0, 1], [1, 0]] [[1/2, 0], [0, 1/2]]"
    "(0::real) \<le> transport_cost [[0, 1], [1, 0]] [[1/4, 1/4], [1/4, 1/4]]"
    by blast+
  with linprog_demo_spec wasserstein_demo p show ?thesis by simp
qed

end
